theory Spec2Isabelle
  imports Complex_Main "HOL-Library.AList"
begin

section \<open>JavaScript values\<close>

text \<open>
  The visual is TypeScript. A JavaScript number is modelled by \<open>jsnum\<close>: a finite
  number is an exact rational, next to the three non-finite values. A sum, product or
  quotient overflows to an infinity as a double does (\<open>fin\<close> below); the rounding of a
  result within the range and the sign of zero are outside the model. A cell of the value
  map is
  \<open>number | null\<close>: \<open>None\<close> is \<open>null\<close>. A value of type \<open>any\<close> is a \<open>jsval\<close>.
  Strings are ASCII: \<open>trim\<close>, \<open>toUpperCase\<close>, \<open>toLowerCase\<close> and the class \<open>\s\<close> are
  modelled on ASCII characters.
\<close>

datatype jsnum = Fin rat | PInf | NInf | NaN

datatype jsval = VNum jsnum | VStr string | VBool bool | VNull | VUndefined

type_synonym cell = "jsnum option"

text \<open>
  Functions of the JavaScript runtime that the code calls and that have no exact
  counterpart on rationals are parameters of the model: \<open>Number(s)\<close> and \<open>String(n)\<close>
  for a string \<open>s\<close> and a number \<open>n\<close>, \<open>Math.pow\<close>, and \<open>a.localeCompare(b)\<close>.
\<close>

record builtins =
  Number_of_string :: "string \<Rightarrow> jsnum"
  String_of_number :: "jsnum \<Rightarrow> string"
  Math_pow :: "jsnum \<Rightarrow> jsnum \<Rightarrow> jsnum"
  localeCompare :: "string \<Rightarrow> string \<Rightarrow> int"

fun isFinite :: "jsnum \<Rightarrow> bool" where
  "isFinite (Fin _) = True"
| "isFinite _ = False"

fun jneg :: "jsnum \<Rightarrow> jsnum" where
  "jneg (Fin a) = Fin (- a)"
| "jneg PInf = NInf"
| "jneg NInf = PInf"
| "jneg NaN = NaN"

text \<open>
  The result of an arithmetic operation on doubles is the exact result rounded to the
  nearest double: it is an infinity when the exact result is, in magnitude, at least
  \<open>2^1024 - 2^970\<close>, half an ulp above the largest double.
\<close>

definition overflowBound :: rat where
  "overflowBound = 2 ^ 1024 - 2 ^ 970"

definition fin :: "rat \<Rightarrow> jsnum" where
  "fin r = (if overflowBound \<le> r then PInf else if r \<le> - overflowBound then NInf else Fin r)"

fun jadd :: "jsnum \<Rightarrow> jsnum \<Rightarrow> jsnum" where
  "jadd NaN _ = NaN"
| "jadd _ NaN = NaN"
| "jadd (Fin a) (Fin b) = fin (a + b)"
| "jadd PInf NInf = NaN"
| "jadd NInf PInf = NaN"
| "jadd PInf _ = PInf"
| "jadd NInf _ = NInf"
| "jadd (Fin _) b = b"

definition jsub :: "jsnum \<Rightarrow> jsnum \<Rightarrow> jsnum" where
  "jsub a b = jadd a (jneg b)"

text \<open>The sign of a number: \<open>Some True\<close> positive, \<open>Some False\<close> negative, \<open>None\<close>
  zero or \<open>NaN\<close>.\<close>

fun jsign :: "jsnum \<Rightarrow> bool option" where
  "jsign (Fin a) = (if a > 0 then Some True else if a < 0 then Some False else None)"
| "jsign PInf = Some True"
| "jsign NInf = Some False"
| "jsign NaN = None"

definition signedInf :: "bool \<Rightarrow> jsnum" where
  "signedInf pos = (if pos then PInf else NInf)"

fun jmul :: "jsnum \<Rightarrow> jsnum \<Rightarrow> jsnum" where
  "jmul NaN _ = NaN"
| "jmul _ NaN = NaN"
| "jmul (Fin a) (Fin b) = fin (a * b)"
| "jmul a b = (case (jsign a, jsign b) of
                 (Some s, Some t) \<Rightarrow> signedInf (s = t)
               | _ \<Rightarrow> NaN)"

fun jdiv :: "jsnum \<Rightarrow> jsnum \<Rightarrow> jsnum" where
  "jdiv NaN _ = NaN"
| "jdiv _ NaN = NaN"
| "jdiv (Fin a) (Fin b) =
     (if b \<noteq> 0 then fin (a / b)
      else (case jsign (Fin a) of Some s \<Rightarrow> signedInf s | None \<Rightarrow> NaN))"
| "jdiv (Fin _) _ = Fin 0"
| "jdiv a (Fin b) = (case jsign a of
                       Some s \<Rightarrow> signedInf (if b < 0 then \<not> s else s)
                     | None \<Rightarrow> NaN)"
| "jdiv _ _ = NaN"

fun jlt :: "jsnum \<Rightarrow> jsnum \<Rightarrow> bool" where
  "jlt NaN _ = False"
| "jlt _ NaN = False"
| "jlt (Fin a) (Fin b) = (a < b)"
| "jlt NInf b = (b \<noteq> NInf)"
| "jlt a PInf = (a \<noteq> PInf)"
| "jlt _ _ = False"

text \<open>\<open>a === b\<close> on numbers: \<open>NaN\<close> equals nothing.\<close>

definition jeq :: "jsnum \<Rightarrow> jsnum \<Rightarrow> bool" where
  "jeq a b = (a \<noteq> NaN \<and> b \<noteq> NaN \<and> a = b)"

definition jle :: "jsnum \<Rightarrow> jsnum \<Rightarrow> bool" where
  "jle a b = (jlt a b \<or> jeq a b)"

fun Math_abs :: "jsnum \<Rightarrow> jsnum" where
  "Math_abs (Fin a) = Fin \<bar>a\<bar>"
| "Math_abs NaN = NaN"
| "Math_abs _ = PInf"

fun Math_floor :: "jsnum \<Rightarrow> jsnum" where
  "Math_floor (Fin a) = Fin (of_int \<lfloor>a\<rfloor>)"
| "Math_floor a = a"

text \<open>\<open>Math.round\<close> rounds to the nearest integer, a half towards plus infinity.\<close>

fun Math_round :: "jsnum \<Rightarrow> jsnum" where
  "Math_round (Fin a) = Fin (of_int \<lfloor>a + 1 / 2\<rfloor>)"
| "Math_round a = a"

definition Math_max2 :: "jsnum \<Rightarrow> jsnum \<Rightarrow> jsnum" where
  "Math_max2 a b = (if a = NaN \<or> b = NaN then NaN else if jlt a b then b else a)"

definition Math_min2 :: "jsnum \<Rightarrow> jsnum \<Rightarrow> jsnum" where
  "Math_min2 a b = (if a = NaN \<or> b = NaN then NaN else if jlt b a then b else a)"

text \<open>\<open>Math.min(...nums)\<close> and \<open>Math.max(...nums)\<close>: with no argument they are
  \<open>Infinity\<close> and \<open>-Infinity\<close>.\<close>

definition Math_min :: "jsnum list \<Rightarrow> jsnum" where
  "Math_min xs = foldl Math_min2 PInf xs"

definition Math_max :: "jsnum list \<Rightarrow> jsnum" where
  "Math_max xs = foldl Math_max2 NInf xs"

subsection \<open>Strings\<close>

definition isWs :: "char \<Rightarrow> bool" where
  "isWs c = (c \<in> set [CHR '' '', CHR 0x09, CHR 0x0A, CHR 0x0B, CHR 0x0C, CHR 0x0D])"

definition trim :: "string \<Rightarrow> string" where
  "trim s = rev (dropWhile isWs (rev (dropWhile isWs s)))"

definition isUpper :: "char \<Rightarrow> bool" where
  "isUpper c = (65 \<le> (of_char c :: nat) \<and> (of_char c :: nat) \<le> 90)"

definition isLower :: "char \<Rightarrow> bool" where
  "isLower c = (97 \<le> (of_char c :: nat) \<and> (of_char c :: nat) \<le> 122)"

definition isDigit :: "char \<Rightarrow> bool" where
  "isDigit c = (48 \<le> (of_char c :: nat) \<and> (of_char c :: nat) \<le> 57)"

definition toUpperChar :: "char \<Rightarrow> char" where
  "toUpperChar c = (if isLower c then char_of (of_char c - (32::nat)) else c)"

definition toLowerChar :: "char \<Rightarrow> char" where
  "toLowerChar c = (if isUpper c then char_of (of_char c + (32::nat)) else c)"

definition toUpperCase :: "string \<Rightarrow> string" where
  "toUpperCase s = map toUpperChar s"

definition toLowerCase :: "string \<Rightarrow> string" where
  "toLowerCase s = map toLowerChar s"

text \<open>\<open>xs.join(sep)\<close>.\<close>

fun join :: "string \<Rightarrow> string list \<Rightarrow> string" where
  "join sep [] = []"
| "join sep [x] = x"
| "join sep (x # y # ys) = x @ sep @ join sep (y # ys)"

text \<open>\<open>hay.includes(needle)\<close>.\<close>

fun includes_str :: "string \<Rightarrow> string \<Rightarrow> bool" where
  "includes_str [] needle = (needle = [])"
| "includes_str (c # cs) needle =
     (take (length needle) (c # cs) = needle \<or> includes_str cs needle)"

subsection \<open>Coercions\<close>

text \<open>\<open>toNumber\<close> and \<open>toBool\<close> of the source.\<close>

fun toNumber :: "builtins \<Rightarrow> jsval \<Rightarrow> jsnum" where
  "toNumber B (VNum n) = n"
| "toNumber B (VBool b) = (if b then Fin 1 else Fin 0)"
| "toNumber B VNull = NaN"
| "toNumber B VUndefined = NaN"
| "toNumber B (VStr s) =
     (let n = Number_of_string B s in if isFinite n then n else NaN)"

fun toBool :: "jsval \<Rightarrow> bool" where
  "toBool (VBool b) = b"
| "toBool (VNum n) = (n \<noteq> Fin 0 \<and> n \<noteq> NaN)"
| "toBool (VStr s) = (length s > 0)"
| "toBool _ = False"

text \<open>\<open>v == null ? "" : String(v)\<close>, which is also \<open>String(v ?? "")\<close>.\<close>

fun strOrEmpty :: "builtins \<Rightarrow> jsval \<Rightarrow> string" where
  "strOrEmpty B (VStr s) = s"
| "strOrEmpty B (VNum n) = String_of_number B n"
| "strOrEmpty B (VBool b) = (if b then ''true'' else ''false'')"
| "strOrEmpty B VNull = []"
| "strOrEmpty B VUndefined = []"

section \<open>The cell maps\<close>

text \<open>
  \<open>valuesMap\<close> is a \<open>Map<string, Map<string, number | null>>\<close> that is only read and
  written by key, so it is a partial function of partial functions. \<open>lookup2\<close> is
  \<open>m.get(code)?.get(colKey)\<close> (\<open>None\<close> is \<open>undefined\<close>), \<open>ensureRow\<close> is
  \<open>if (!m.has(code)) m.set(code, new Map())\<close>, and \<open>put2\<close> is
  \<open>m.get(code)!.set(colKey, v)\<close> after \<open>ensureRow\<close>.
\<close>

type_synonym 'v map2 = "string \<rightharpoonup> (string \<rightharpoonup> 'v)"

definition lookup2 :: "'v map2 \<Rightarrow> string \<Rightarrow> string \<Rightarrow> 'v option" where
  "lookup2 m code colKey = (case m code of None \<Rightarrow> None | Some r \<Rightarrow> r colKey)"

definition has2 :: "'v map2 \<Rightarrow> string \<Rightarrow> string \<Rightarrow> bool" where
  "has2 m code colKey = (lookup2 m code colKey \<noteq> None)"

definition ensureRow :: "'v map2 \<Rightarrow> string \<Rightarrow> 'v map2" where
  "ensureRow m code = (if m code = None then m(code \<mapsto> Map.empty) else m)"

definition put2 :: "'v map2 \<Rightarrow> string \<Rightarrow> string \<Rightarrow> 'v \<Rightarrow> 'v map2" where
  "put2 m code colKey v =
     (case m code of None \<Rightarrow> m | Some r \<Rightarrow> m(code \<mapsto> r(colKey \<mapsto> v)))"

text \<open>\<open>setCell\<close> and \<open>setComputed\<close> have the same body.\<close>

definition setCell :: "cell map2 \<Rightarrow> string \<Rightarrow> string \<Rightarrow> cell \<Rightarrow> cell map2" where
  "setCell m code colKey v = put2 (ensureRow m code) code colKey v"

definition setComputed :: "cell map2 \<Rightarrow> string \<Rightarrow> string \<Rightarrow> cell \<Rightarrow> cell map2" where
  "setComputed m code colKey v = put2 (ensureRow m code) code colKey v"

record cellmaps =
  valuesMap :: "cell map2"
  valuesRawMap :: "jsval map2"

definition emptyCells :: cellmaps where
  "emptyCells = \<lparr>valuesMap = Map.empty, valuesRawMap = Map.empty\<rparr>"

text \<open>\<open>prev == null || !Number.isFinite(prev)\<close>, for \<open>prev\<close> read from the map.\<close>

fun noFinitePrev :: "cell option \<Rightarrow> bool" where
  "noFinitePrev (Some (Some n)) = (\<not> isFinite n)"
| "noFinitePrev _ = True"

definition addCell :: "builtins \<Rightarrow> string \<Rightarrow> string \<Rightarrow> jsval \<Rightarrow> cellmaps \<Rightarrow> cellmaps" where
  "addCell B code colKey rawAny st =
     (let n = toNumber B rawAny in
      if \<not> isFinite n then
        (let vm1 = ensureRow (valuesMap st) code;
             vm2 = (if \<not> has2 vm1 code colKey then put2 vm1 code colKey None else vm1);
             rm1 = ensureRow (valuesRawMap st) code;
             rm2 = (if \<not> has2 rm1 code colKey then put2 rm1 code colKey rawAny else rm1)
         in \<lparr>valuesMap = vm2, valuesRawMap = rm2\<rparr>)
      else
        (let vm1 = ensureRow (valuesMap st) code;
             prev = lookup2 vm1 code colKey;
             next = (if noFinitePrev prev then n else jadd (the (the prev)) n);
             vm2 = put2 vm1 code colKey (Some next);
             rm1 = ensureRow (valuesRawMap st) code;
             rm2 = put2 rm1 code colKey (VNum next)
         in \<lparr>valuesMap = vm2, valuesRawMap = rm2\<rparr>))"


subsection \<open>Specification functions for the aggregation\<close>

definition cellStep :: "builtins \<Rightarrow> cell option \<Rightarrow> jsval \<Rightarrow> cell option" where
  "cellStep B prev rawAny =
     (let n = toNumber B rawAny in
      if \<not> isFinite n then (case prev of None \<Rightarrow> Some None | Some c \<Rightarrow> Some c)
      else Some (Some (if noFinitePrev prev then n else jadd (the (the prev)) n)))"

definition addCells :: "builtins \<Rightarrow> (string \<times> string \<times> jsval) list \<Rightarrow> cellmaps \<Rightarrow> cellmaps" where
  "addCells B ts st = foldl (\<lambda>s (code, colKey, rawAny). addCell B code colKey rawAny s) st ts"

definition contributions :: "(string \<times> string \<times> jsval) list \<Rightarrow> string \<Rightarrow> string \<Rightarrow> jsval list" where
  "contributions ts code colKey = map (\<lambda>(c, k, r). r) (filter (\<lambda>(c, k, r). c = code \<and> k = colKey) ts)"

definition numericOnes :: "builtins \<Rightarrow> jsval list \<Rightarrow> rat list" where
  "numericOnes B rs = List.map_filter (\<lambda>r. case toNumber B r of Fin q \<Rightarrow> Some q | _ \<Rightarrow> None) rs"

text \<open>
  The number that \<open>addCell\<close> builds from the numbers it is given for one cell: each is
  added to what the cell holds, and a cell that holds an infinity takes the number as
  it is.
\<close>

definition accumulate :: "jsnum \<Rightarrow> rat \<Rightarrow> jsnum" where
  "accumulate acc q = (if isFinite acc then jadd acc (Fin q) else Fin q)"

definition runningSum :: "rat list \<Rightarrow> jsnum" where
  "runningSum qs = foldl accumulate (Fin (hd qs)) (tl qs)"

text \<open>No sum of the first \<open>n\<close> numbers overflows.\<close>

definition noOverflow :: "rat list \<Rightarrow> bool" where
  "noOverflow qs = list_all (\<lambda>n. \<bar>sum_list (take n qs)\<bar> < overflowBound) [0 ..< Suc (length qs)]"

text \<open>A large double, for the examples.\<close>

definition exHuge :: rat where
  "exHuge = 2 ^ 1023"

definition stdB :: builtins where
  "stdB = \<lparr>Number_of_string = (\<lambda>s. NaN), String_of_number = (\<lambda>n. []), Math_pow = (\<lambda>a b. NaN), localeCompare = (\<lambda>a b. 0)\<rparr>"


section \<open>Conditional formatting rules\<close>

datatype CFRuleTarget = TargetRowHeader | TargetColumnHeader | TargetCell
datatype CFMatchMode = MatchAny | MatchContains | MatchEquals
datatype CFConditionType = CondValue | CondText
datatype CFOperator = OpGt | OpGte | OpLt | OpLte | OpEq | OpBetween | OpContains
datatype CFApplyScope = ScopeSelf | ScopeEntireRow | ScopeEntireColumn
datatype CFFormatProp = PropBackground | PropFontColor | PropIcon

text \<open>
  \<open>CFStyle\<close>: every property is optional, and \<open>None\<close> is a property the object does
  not have. (\<open>normalizeCfRule\<close> never stores a property it has no value for.)
\<close>

record CFStyle =
  fontColor :: "string option"
  background :: "string option"
  iconName :: "string option"
  bold :: "bool option"
  italic :: "bool option"
  underline :: "bool option"

record CFRule =
  rid :: string
  enabled :: bool
  target :: CFRuleTarget
  scope :: "CFApplyScope option"
  formatProp :: "CFFormatProp option"
  rowMatchMode :: CFMatchMode
  rowMatchText :: string
  colMatchMode :: CFMatchMode
  colMatchText :: string
  conditionType :: CFConditionType
  operator :: CFOperator
  value1 :: string
  value2 :: string
  style :: CFStyle

text \<open>The \<open>ctx\<close> argument of \<open>evalCfRules\<close>; \<open>evalCfRulesForValueCell\<close> takes the same
  fields but \<open>target\<close> and \<open>text\<close>, all but \<open>formatProp\<close> required.\<close>

record CFCtx =
  ctxTarget :: CFRuleTarget
  ctxFormatProp :: "CFFormatProp option"
  ctxRowCode :: "string option"
  ctxRowLabel :: "string option"
  ctxColKey :: "string option"
  ctxColText :: "string option"
  ctxValue :: "cell option"
  ctxText :: "string option"

definition emptyStyle :: CFStyle where
  "emptyStyle = \<lparr>fontColor = None, background = None, iconName = None,
                  bold = None, italic = None, underline = None\<rparr>"

text \<open>One property of \<open>{ ...a, ...b }\<close>.\<close>

definition spreadProp :: "'a option \<Rightarrow> 'a option \<Rightarrow> 'a option" where
  "spreadProp a b = (case b of Some v \<Rightarrow> Some v | None \<Rightarrow> a)"

text \<open>\<open>{ ...(out || {}), ...(rule.style || {}) }\<close>.\<close>

definition mergeStyle :: "CFStyle option \<Rightarrow> CFStyle \<Rightarrow> CFStyle" where
  "mergeStyle out s =
     (let a = (case out of None \<Rightarrow> emptyStyle | Some x \<Rightarrow> x) in
      \<lparr>fontColor = spreadProp (fontColor a) (fontColor s),
       background = spreadProp (background a) (background s),
       iconName = spreadProp (iconName a) (iconName s),
       bold = spreadProp (bold a) (bold s),
       italic = spreadProp (italic a) (italic s),
       underline = spreadProp (underline a) (underline s)\<rparr>)"

text \<open>\<open>a || b || ""\<close> on optional strings: the first that is present and not empty.\<close>

definition orStr :: "string option \<Rightarrow> string option \<Rightarrow> string" where
  "orStr a b =
     (case a of
        Some x \<Rightarrow> (if x \<noteq> [] then x else (case b of Some y \<Rightarrow> y | None \<Rightarrow> []))
      | None \<Rightarrow> (case b of Some y \<Rightarrow> y | None \<Rightarrow> []))"

definition cfNorm :: "string \<Rightarrow> string" where
  "cfNorm s = toLowerCase (trim s)"

definition matchText :: "CFMatchMode \<Rightarrow> string \<Rightarrow> string \<Rightarrow> bool" where
  "matchText mode needle hay =
     (if mode = MatchAny then True
      else let n = cfNorm needle in
        if n = [] then True
        else let h = cfNorm hay in
          if mode = MatchEquals then h = n else includes_str h n)"

definition parseNum :: "builtins \<Rightarrow> string \<Rightarrow> jsnum" where
  "parseNum B s = (let n = Number_of_string B (trim s) in if isFinite n then n else NaN)"

text \<open>The numeric condition of a rule on the value of the context (the \<open>contains\<close>
  case of \<open>evalCfRules\<close> has the result of the default case).\<close>

definition valueCondition :: "builtins \<Rightarrow> CFRule \<Rightarrow> cell option \<Rightarrow> bool" where
  "valueCondition B rule cv =
     (case cv of
        Some (Some v) \<Rightarrow>
          (if \<not> isFinite v then False
           else let a = parseNum B (value1 rule); b = parseNum B (value2 rule) in
             (case operator rule of
                OpGt \<Rightarrow> (if isFinite a then jlt a v else False)
              | OpGte \<Rightarrow> (if isFinite a then jle a v else False)
              | OpLt \<Rightarrow> (if isFinite a then jlt v a else False)
              | OpLte \<Rightarrow> (if isFinite a then jle v a else False)
              | OpEq \<Rightarrow> (if isFinite a then jeq v a else False)
              | OpBetween \<Rightarrow>
                  (if isFinite a \<and> isFinite b
                   then jle (Math_min2 a b) v \<and> jle v (Math_max2 a b) else False)
              | OpContains \<Rightarrow> False))
      | _ \<Rightarrow> False)"

definition textCondition :: "CFRule \<Rightarrow> string \<Rightarrow> bool" where
  "textCondition rule txt =
     (let t = cfNorm txt; n = cfNorm (value1 rule) in
      (case operator rule of
         OpContains \<Rightarrow> (if n \<noteq> [] then includes_str t n else False)
       | OpEq \<Rightarrow> (if n \<noteq> [] then t = n else False)
       | _ \<Rightarrow> False))"

definition propOf :: "CFRule \<Rightarrow> CFFormatProp" where
  "propOf rule = (case formatProp rule of Some p \<Rightarrow> p | None \<Rightarrow> PropBackground)"

definition scopeOf :: "CFRule \<Rightarrow> CFApplyScope" where
  "scopeOf rule = (case scope rule of Some s \<Rightarrow> s | None \<Rightarrow> ScopeSelf)"

text \<open>The loop of \<open>evalCfRules\<close>: each \<open>continue\<close> goes on with \<open>out\<close> unchanged.\<close>

fun evalCfRulesLoop :: "builtins \<Rightarrow> CFCtx \<Rightarrow> CFStyle option \<Rightarrow> CFRule list \<Rightarrow> CFStyle option" where
  "evalCfRulesLoop B ctx out [] = out"
| "evalCfRulesLoop B ctx out (rule # rules) =
     (if \<not> enabled rule then evalCfRulesLoop B ctx out rules
      else if target rule \<noteq> ctxTarget ctx then evalCfRulesLoop B ctx out rules
      else if ctxFormatProp ctx \<noteq> None \<and> Some (propOf rule) \<noteq> ctxFormatProp ctx
        then evalCfRulesLoop B ctx out rules
      else let rowHay = orStr (ctxRowLabel ctx) (ctxRowCode ctx);
               colHay = orStr (ctxColText ctx) (ctxColKey ctx) in
        if \<not> matchText (rowMatchMode rule) (rowMatchText rule) rowHay
          then evalCfRulesLoop B ctx out rules
        else if \<not> matchText (colMatchMode rule) (colMatchText rule) colHay
          then evalCfRulesLoop B ctx out rules
        else let ok = (if conditionType rule = CondValue
                       then valueCondition B rule (ctxValue ctx)
                       else textCondition rule (orStr (ctxText ctx) None)) in
          if \<not> ok then evalCfRulesLoop B ctx out rules
          else evalCfRulesLoop B ctx (Some (mergeStyle out (style rule))) rules)"

definition evalCfRules :: "builtins \<Rightarrow> CFRule list \<Rightarrow> CFCtx \<Rightarrow> CFStyle option" where
  "evalCfRules B rules ctx = evalCfRulesLoop B ctx None rules"

text \<open>The loop of \<open>evalCfRulesForValueCell\<close>: a row-header rule of scope \<open>entireRow\<close>,
  a column-header rule of scope \<open>entireColumn\<close>, or a cell rule.\<close>

fun evalCfCellLoop :: "builtins \<Rightarrow> CFCtx \<Rightarrow> CFStyle option \<Rightarrow> CFRule list \<Rightarrow> CFStyle option" where
  "evalCfCellLoop B ctx out [] = out"
| "evalCfCellLoop B ctx out (rule # rules) =
     (if \<not> enabled rule then evalCfCellLoop B ctx out rules
      else if ctxFormatProp ctx \<noteq> None \<and> Some (propOf rule) \<noteq> ctxFormatProp ctx
        then evalCfCellLoop B ctx out rules
      else let rowHay = orStr (ctxRowLabel ctx) (ctxRowCode ctx);
               colHay = orStr (ctxColText ctx) (ctxColKey ctx) in
        if target rule = TargetRowHeader \<and> scopeOf rule = ScopeEntireRow then
          (if \<not> matchText (rowMatchMode rule) (rowMatchText rule) rowHay
             then evalCfCellLoop B ctx out rules
           else if \<not> matchText (colMatchMode rule) (colMatchText rule) colHay
             then evalCfCellLoop B ctx out rules
           else let ok = (if conditionType rule = CondText
                          then textCondition rule rowHay else False) in
             if \<not> ok then evalCfCellLoop B ctx out rules
             else evalCfCellLoop B ctx (Some (mergeStyle out (style rule))) rules)
        else if target rule = TargetColumnHeader \<and> scopeOf rule = ScopeEntireColumn then
          (if \<not> matchText (rowMatchMode rule) (rowMatchText rule) rowHay
             then evalCfCellLoop B ctx out rules
           else if \<not> matchText (colMatchMode rule) (colMatchText rule) colHay
             then evalCfCellLoop B ctx out rules
           else let ok = (if conditionType rule = CondText
                          then textCondition rule colHay else False) in
             if \<not> ok then evalCfCellLoop B ctx out rules
             else evalCfCellLoop B ctx (Some (mergeStyle out (style rule))) rules)
        else if target rule \<noteq> TargetCell then evalCfCellLoop B ctx out rules
        else if \<not> matchText (rowMatchMode rule) (rowMatchText rule) rowHay
          then evalCfCellLoop B ctx out rules
        else if \<not> matchText (colMatchMode rule) (colMatchText rule) colHay
          then evalCfCellLoop B ctx out rules
        else let ok = (if conditionType rule = CondValue
                       then valueCondition B rule (ctxValue ctx) else False) in
          if \<not> ok then evalCfCellLoop B ctx out rules
          else evalCfCellLoop B ctx (Some (mergeStyle out (style rule))) rules)"

definition evalCfRulesForValueCell :: "builtins \<Rightarrow> CFRule list \<Rightarrow> CFCtx \<Rightarrow> CFStyle option" where
  "evalCfRulesForValueCell B rules ctx = evalCfCellLoop B ctx None rules"

subsection \<open>When a rule applies, and the last rule that defines a property\<close>

text \<open>A rule applies to a target when it is enabled, is of the asked format property,
  and passes the target, text-match and condition tests of the function.\<close>

definition ruleApplies :: "builtins \<Rightarrow> CFCtx \<Rightarrow> CFRule \<Rightarrow> bool" where
  "ruleApplies B ctx rule =
     (enabled rule \<and> target rule = ctxTarget ctx
      \<and> (ctxFormatProp ctx = None \<or> Some (propOf rule) = ctxFormatProp ctx)
      \<and> matchText (rowMatchMode rule) (rowMatchText rule) (orStr (ctxRowLabel ctx) (ctxRowCode ctx))
      \<and> matchText (colMatchMode rule) (colMatchText rule) (orStr (ctxColText ctx) (ctxColKey ctx))
      \<and> (if conditionType rule = CondValue then valueCondition B rule (ctxValue ctx)
         else textCondition rule (orStr (ctxText ctx) None)))"

definition ruleAppliesToCell :: "builtins \<Rightarrow> CFCtx \<Rightarrow> CFRule \<Rightarrow> bool" where
  "ruleAppliesToCell B ctx rule =
     (enabled rule
      \<and> (ctxFormatProp ctx = None \<or> Some (propOf rule) = ctxFormatProp ctx)
      \<and> matchText (rowMatchMode rule) (rowMatchText rule) (orStr (ctxRowLabel ctx) (ctxRowCode ctx))
      \<and> matchText (colMatchMode rule) (colMatchText rule) (orStr (ctxColText ctx) (ctxColKey ctx))
      \<and> (if target rule = TargetRowHeader \<and> scopeOf rule = ScopeEntireRow then
           conditionType rule = CondText
           \<and> textCondition rule (orStr (ctxRowLabel ctx) (ctxRowCode ctx))
         else if target rule = TargetColumnHeader \<and> scopeOf rule = ScopeEntireColumn then
           conditionType rule = CondText
           \<and> textCondition rule (orStr (ctxColText ctx) (ctxColKey ctx))
         else target rule = TargetCell \<and> conditionType rule = CondValue
           \<and> valueCondition B rule (ctxValue ctx)))"

text \<open>The value a property has in the last style of a list that defines it.\<close>

definition lastDefined :: "(CFStyle \<Rightarrow> 'a option) \<Rightarrow> CFStyle list \<Rightarrow> 'a option" where
  "lastDefined f ss = (case filter (\<lambda>s. f s \<noteq> None) (rev ss) of [] \<Rightarrow> None | s # _ \<Rightarrow> f s)"

definition lastWriteWins :: "CFStyle list \<Rightarrow> CFStyle option" where
  "lastWriteWins ss =
     (if ss = [] then None
      else Some \<lparr>fontColor = lastDefined fontColor ss,
                 background = lastDefined background ss,
                 iconName = lastDefined iconName ss,
                 bold = lastDefined bold ss,
                 italic = lastDefined italic ss,
                 underline = lastDefined underline ss\<rparr>)"

section \<open>The data model of the matrix\<close>

datatype LayoutRowType = TData | TCalc | TBlank

record RowStyleOverride =
  so_bold :: "bool option"
  so_color :: "string option"
  so_background :: "string option"
  so_italic :: "bool option"
  so_underline :: "bool option"

text \<open>
  A row of the declarative layout, as typed by the interface \<open>LayoutRow\<close>. For
  \<open>parent\<close>, \<open>None\<close> is \<open>undefined\<close> (not given) and \<open>Some None\<close> is \<open>null\<close>.
\<close>

record LayoutRow =
  l_code :: string
  l_label :: "string option"
  l_parent :: "string option option"
  l_type :: "LayoutRowType option"
  l_order :: "rat option"
  l_formula :: "string option"
  l_style :: "RowStyleOverride option"

record RowNode =
  code :: string
  label :: string
  parent :: "string option"
  rtype :: LayoutRowType
  orderIndex :: rat
  order :: "rat option"
  formula :: "string option"
  rowStyle :: "RowStyleOverride option"
  children :: "string list"
  depth :: nat
  rowLevel :: "int option"
  groupKey :: "string option"
  isTotal :: bool

record BucketedColumnKey =
  bucket :: string
  cmeasure :: "string option"
  key :: string
  levels :: "string list"
  columnLevels :: "string list"
  leafLabel :: string

text \<open>
  One record \<open>i\<close> of the bound data, as the loop over \<open>i < rowCount\<close> reads it: the values
  \<open>arr[i]\<close> of the row categories, \<open>groupValues[i]\<close> (\<open>undefined\<close> without a group
  category), the values of the column categories, and for every value column that
  \<open>pickBucket\<close> accepts its display name and \<open>v.values[i]\<close>.
\<close>

record DataRow =
  rowValues :: "jsval list"
  groupValue :: jsval
  columnValues :: "jsval list"
  measureValues :: "(string \<times> jsval) list"

text \<open>The settings the model builder reads, and the two parsed JSON inputs.\<close>

record settings =
  blankAsZero :: bool
  autoAggregateParents :: bool
  showSubtotals :: bool
  showGrandTotal :: bool
  grandTotalLabelSetting :: "string option"
  subtotalLabelTemplateSetting :: "string option"
  layoutRows :: "LayoutRow list"
  formulas :: "string \<rightharpoonup> string"

text \<open>
  A JavaScript \<open>Map\<close> that the code iterates is an association list in insertion
  order: \<open>map_of\<close> is \<open>get\<close>, \<open>AList.update\<close> is \<open>set\<close> (an existing key keeps its
  place, a new key goes to the end), \<open>map snd\<close> is \<open>values()\<close>.
\<close>

type_synonym ('k, 'v) jsmap = "('k \<times> 'v) list"

definition truthy :: "string option \<Rightarrow> bool" where
  "truthy s = (case s of Some x \<Rightarrow> x \<noteq> [] | None \<Rightarrow> False)"

subsection \<open>Columns\<close>

definition makeLevels :: "string list \<Rightarrow> string \<Rightarrow> string list" where
  "makeLevels cl leaf =
     (if length cl = 0 then [leaf]
      else if length cl = 1 then [cl ! 0 @ '' '' @ leaf]
      else butlast cl @ [join '' '' cl @ '' '' @ leaf])"

definition formatColumnLeafLabel :: "string \<Rightarrow> string \<Rightarrow> string" where
  "formatColumnLeafLabel m k = (if m \<noteq> [] then m else k)"

text \<open>The key that \<open>ensureColumn\<close> gives the column of a measure under a column tuple.\<close>

definition columnKey :: "string \<Rightarrow> string \<Rightarrow> string list \<Rightarrow> string" where
  "columnKey b measureName cl = join ''||'' cl @ ''||'' @ (b @ ''||'' @ measureName)"

record build_state =
  columns :: "BucketedColumnKey list"
  columnsByKey :: "string \<rightharpoonup> BucketedColumnKey"
  cellMaps :: cellmaps
  dataLabelByCode :: "(string, string) jsmap"
  dataParentByCode :: "string \<rightharpoonup> string option"
  dataRowLevelByCode :: "string \<rightharpoonup> int"
  dataGroupKeyByCode :: "string \<rightharpoonup> string option"

definition emptyBuild :: build_state where
  "emptyBuild = \<lparr>columns = [], columnsByKey = Map.empty, cellMaps = emptyCells,
     dataLabelByCode = [], dataParentByCode = Map.empty, dataRowLevelByCode = Map.empty,
     dataGroupKeyByCode = Map.empty\<rparr>"

definition ensureColumn ::
  "string \<Rightarrow> string \<Rightarrow> string list \<Rightarrow> build_state \<Rightarrow> BucketedColumnKey \<times> build_state" where
  "ensureColumn b measureName cl st =
     (let leaf = b @ ''||'' @ measureName;
          k = join ''||'' cl @ ''||'' @ leaf in
      case columnsByKey st k of
        Some existing \<Rightarrow> (existing, st)
      | None \<Rightarrow>
          (let ll = formatColumnLeafLabel measureName leaf;
               col = \<lparr>bucket = b, cmeasure = Some measureName, key = k,
                      levels = makeLevels cl ll, columnLevels = cl, leafLabel = ll\<rparr>
           in (col, st\<lparr>columnsByKey := (columnsByKey st)(k \<mapsto> col),
                       columns := columns st @ [col]\<rparr>)))"

subsection \<open>Reading the bound data\<close>

definition norm :: "builtins \<Rightarrow> jsval \<Rightarrow> string" where
  "norm B v = (let t = trim (strOrEmpty B v) in if t \<noteq> [] then t else ''(Blank)'')"

definition getRowLevels :: "builtins \<Rightarrow> DataRow \<Rightarrow> string list" where
  "getRowLevels B r = map (norm B) (rowValues r)"

definition getColumnLevels :: "builtins \<Rightarrow> DataRow \<Rightarrow> string list" where
  "getColumnLevels B r = map (norm B) (columnValues r)"

definition getGroup :: "builtins \<Rightarrow> DataRow \<Rightarrow> string option" where
  "getGroup B r = (let t = trim (strOrEmpty B (groupValue r)) in if t \<noteq> [] then Some t else None)"

text \<open>The group node of a record: created once, with no parent and row level \<open>-1\<close>.\<close>

definition discoverGroup :: "string option \<Rightarrow> build_state \<Rightarrow> build_state" where
  "discoverGroup g st =
     (case g of
        Some gname \<Rightarrow>
          (if gname \<noteq> [] \<and> map_of (dataLabelByCode st) gname = None
           then st\<lparr>dataLabelByCode := AList.update gname gname (dataLabelByCode st),
                   dataParentByCode := (dataParentByCode st)(gname \<mapsto> None),
                   dataRowLevelByCode := (dataRowLevelByCode st)(gname \<mapsto> - 1),
                   dataGroupKeyByCode := (dataGroupKeyByCode st)(gname \<mapsto> Some gname)\<rparr>
           else st)
      | None \<Rightarrow> st)"

text \<open>One turn of the loop over the prefixes of a row tuple; the first component of
  the state is the variable \<open>parent\<close>.\<close>

definition discoverLevel ::
  "string list \<Rightarrow> string option \<Rightarrow> string option \<times> build_state \<Rightarrow> nat
     \<Rightarrow> string option \<times> build_state" where
  "discoverLevel rl g pst lvl =
     (let par = fst pst; st = snd pst;
          c = join ''||'' (take (lvl + 1) rl);
          lab = rl ! lvl;
          st1 = (if map_of (dataLabelByCode st) c = None
                 then st\<lparr>dataLabelByCode := AList.update c lab (dataLabelByCode st)\<rparr> else st);
          st2 = (if dataParentByCode st1 c = None
                 then st1\<lparr>dataParentByCode := (dataParentByCode st1)(c \<mapsto> par)\<rparr> else st1);
          st3 = (if dataRowLevelByCode st2 c = None
                 then st2\<lparr>dataRowLevelByCode := (dataRowLevelByCode st2)(c \<mapsto> int lvl)\<rparr> else st2);
          st4 = (if dataGroupKeyByCode st3 c = None
                 then st3\<lparr>dataGroupKeyByCode := (dataGroupKeyByCode st3)(c \<mapsto> g)\<rparr> else st3)
      in (Some c, st4))"

text \<open>One measure of a record: its column is found or made, and its raw value added to
  the cell of the leaf row.\<close>

definition storeMeasure ::
  "builtins \<Rightarrow> string \<Rightarrow> string list \<Rightarrow> build_state \<Rightarrow> string \<times> jsval \<Rightarrow> build_state" where
  "storeMeasure B leafCode cl st mv =
     (let cs = ensureColumn ''values'' (fst mv) cl st;
          col = fst cs; st1 = snd cs
      in st1\<lparr>cellMaps := addCell B leafCode (key col) (snd mv) (cellMaps st1)\<rparr>)"

definition readRecord :: "builtins \<Rightarrow> build_state \<Rightarrow> DataRow \<Rightarrow> build_state" where
  "readRecord B st r =
     (let rl = getRowLevels B r in
      if length rl = 0 then st
      else
        (let g = getGroup B r;
             leafCode = join ''||'' rl;
             cl = getColumnLevels B r;
             st1 = discoverGroup g st;
             st2 = snd (foldl (discoverLevel rl g) (g, st1) [0 ..< length rl])
         in foldl (storeMeasure B leafCode cl) st2 (measureValues r)))"

definition readData :: "builtins \<Rightarrow> DataRow list \<Rightarrow> build_state" where
  "readData B rs = foldl (readRecord B) emptyBuild rs"

subsection \<open>Sorting\<close>

text \<open>
  \<open>Array.prototype.sort\<close> with a comparator is stable; for a comparator that is a
  consistent ordering it is the insertion sort below.
\<close>

fun insertBy :: "('a \<Rightarrow> 'a \<Rightarrow> int) \<Rightarrow> 'a \<Rightarrow> 'a list \<Rightarrow> 'a list" where
  "insertBy cmp x [] = [x]"
| "insertBy cmp x (y # ys) = (if cmp x y \<le> 0 then x # y # ys else y # insertBy cmp x ys)"

definition sortBy :: "('a \<Rightarrow> 'a \<Rightarrow> int) \<Rightarrow> 'a list \<Rightarrow> 'a list" where
  "sortBy cmp xs = foldr (insertBy cmp) xs []"

text \<open>The comparator of the column sort: level by level, a missing level is \<open>""\<close>.\<close>

fun cmpLevels :: "builtins \<Rightarrow> string list \<Rightarrow> string list \<Rightarrow> int" where
  "cmpLevels B [] [] = 0"
| "cmpLevels B (a # as) [] =
     (let c = localeCompare B a [] in if c \<noteq> 0 then c else cmpLevels B as [])"
| "cmpLevels B [] (b # bs) =
     (let c = localeCompare B [] b in if c \<noteq> 0 then c else cmpLevels B [] bs)"
| "cmpLevels B (a # as) (b # bs) =
     (let c = localeCompare B a b in if c \<noteq> 0 then c else cmpLevels B as bs)"

definition sortColumns :: "builtins \<Rightarrow> BucketedColumnKey list \<Rightarrow> BucketedColumnKey list" where
  "sortColumns B cols = sortBy (\<lambda>a b. cmpLevels B (levels a) (levels b)) cols"

subsection \<open>The row hierarchy\<close>

text \<open>\<open>a || b\<close> on optional strings, and \<open>a || b || c\<close> ending in a string.\<close>

definition orElse :: "string option \<Rightarrow> string option \<Rightarrow> string option" where
  "orElse a b = (if truthy a then a else b)"

record row_state =
  rowByCode :: "(string, RowNode) jsmap"
  nextOrderIndex :: nat

definition addRow ::
  "build_state \<Rightarrow> (string \<rightharpoonup> string) \<Rightarrow> LayoutRow \<Rightarrow> string option \<Rightarrow> string option
     \<Rightarrow> row_state \<Rightarrow> row_state" where
  "addRow ds fm r fallbackLabel fallbackParent rs =
     (let c = trim (l_code r) in
      if c = [] then rs
      else
        (let lab = trim (case orElse (orElse (l_label r) fallbackLabel) (Some c) of
                           Some x \<Rightarrow> x | None \<Rightarrow> []);
             par = (case l_parent r of
                      Some p \<Rightarrow> (if truthy p then map_option trim p else None)
                    | None \<Rightarrow> fallbackParent);
             ty = (case l_type r of Some t \<Rightarrow> t | None \<Rightarrow> TData);
             f = orElse (l_formula r) (fm c);
             node = \<lparr>code = c, label = lab, parent = par, rtype = ty,
                     orderIndex = of_nat (nextOrderIndex rs), order = l_order r,
                     formula = (if truthy f then f else None), rowStyle = l_style r,
                     children = [], depth = 0,
                     rowLevel = dataRowLevelByCode ds c,
                     groupKey = (case dataGroupKeyByCode ds c of Some g \<Rightarrow> g | None \<Rightarrow> None),
                     isTotal = False\<rparr>
         in \<lparr>rowByCode = AList.update c node (rowByCode rs),
             nextOrderIndex = nextOrderIndex rs + 1\<rparr>))"

definition addLayoutRows ::
  "build_state \<Rightarrow> (string \<rightharpoonup> string) \<Rightarrow> LayoutRow list \<Rightarrow> row_state" where
  "addLayoutRows ds fm lrs =
     foldl (\<lambda>rs r. addRow ds fm r None None rs) \<lparr>rowByCode = [], nextOrderIndex = 0\<rparr> lrs"

text \<open>The row that the merge loop passes to \<open>addRow\<close> for a discovered code:
  \<open>{ code, type: "data" }\<close>.\<close>

definition dataLayoutRow :: "string \<Rightarrow> LayoutRow" where
  "dataLayoutRow c = \<lparr>l_code = c, l_label = None, l_parent = None, l_type = Some TData,
     l_order = None, l_formula = None, l_style = None\<rparr>"

definition dataParentOf :: "build_state \<Rightarrow> string \<Rightarrow> string option" where
  "dataParentOf ds c = (case dataParentByCode ds c of Some p \<Rightarrow> p | None \<Rightarrow> None)"

text \<open>One turn of the loop over \<open>dataLabelByCode.entries()\<close>.\<close>

definition mergeDataRow ::
  "build_state \<Rightarrow> (string \<rightharpoonup> string) \<Rightarrow> row_state \<Rightarrow> string \<times> string \<Rightarrow> row_state" where
  "mergeDataRow ds fm rs cl =
     (let c = fst cl; lab = snd cl in
      case map_of (rowByCode rs) c of
        Some existing \<Rightarrow>
          (let e1 = (if \<not> truthy (parent existing)
                     then existing\<lparr>parent := dataParentOf ds c\<rparr> else existing);
               e2 = (if label e1 = [] then e1\<lparr>label := lab\<rparr> else e1)
           in rs\<lparr>rowByCode := AList.update c e2 (rowByCode rs)\<rparr>)
      | None \<Rightarrow> addRow ds fm (dataLayoutRow c) (Some lab) (dataParentOf ds c) rs)"

definition buildRows ::
  "build_state \<Rightarrow> (string \<rightharpoonup> string) \<Rightarrow> LayoutRow list \<Rightarrow> (string, RowNode) jsmap" where
  "buildRows ds fm lrs =
     rowByCode (foldl (mergeDataRow ds fm) (addLayoutRows ds fm lrs) (dataLabelByCode ds))"

text \<open>The loop that links children: every row with a parent that is a row is pushed
  onto the children of that parent.\<close>

definition linkChild :: "(string, RowNode) jsmap \<Rightarrow> RowNode \<Rightarrow> (string, RowNode) jsmap" where
  "linkChild rb r =
     (case parent r of
        Some p \<Rightarrow>
          (if p \<noteq> [] then
             (case map_of rb p of
                Some pn \<Rightarrow> AList.update p (pn\<lparr>children := children pn @ [code r]\<rparr>) rb
              | None \<Rightarrow> rb)
           else rb)
      | None \<Rightarrow> rb)"

definition linkChildren :: "(string, RowNode) jsmap \<Rightarrow> (string, RowNode) jsmap" where
  "linkChildren rb = foldl linkChild rb (map snd rb)"

definition isRoot :: "(string, RowNode) jsmap \<Rightarrow> RowNode \<Rightarrow> bool" where
  "isRoot rb r =
     (case parent r of None \<Rightarrow> True | Some p \<Rightarrow> p = [] \<or> map_of rb p = None)"

definition rootsOf :: "(string, RowNode) jsmap \<Rightarrow> string list" where
  "rootsOf rb = map code (filter (isRoot rb) (map snd rb))"

text \<open>The comparator of \<open>sortChildren\<close>. Every code it is given is a row; for a code
  that is not, the source would throw, and the comparator here is \<open>0\<close>.\<close>

definition cmpRows :: "builtins \<Rightarrow> (string, RowNode) jsmap \<Rightarrow> string \<Rightarrow> string \<Rightarrow> int" where
  "cmpRows B rb a b =
     (case (map_of rb a, map_of rb b) of
        (Some ra, Some rb') \<Rightarrow>
          (let oa = (case order ra of Some x \<Rightarrow> x | None \<Rightarrow> orderIndex ra);
               ob = (case order rb' of Some x \<Rightarrow> x | None \<Rightarrow> orderIndex rb')
           in if oa \<noteq> ob then (if oa < ob then - 1 else 1)
              else localeCompare B (label ra) (label rb'))
      | _ \<Rightarrow> 0)"

definition sortChildren :: "builtins \<Rightarrow> (string, RowNode) jsmap \<Rightarrow> string list \<Rightarrow> string list" where
  "sortChildren B rb codes = sortBy (cmpRows B rb) codes"

definition sortAllChildren :: "builtins \<Rightarrow> (string, RowNode) jsmap \<Rightarrow> (string, RowNode) jsmap" where
  "sortAllChildren B rb = map (\<lambda>(k, r). (k, r\<lparr>children := sortChildren B rb (children r)\<rparr>)) rb"

subsection \<open>Flattening\<close>

text \<open>
  \<open>visit(code, depth)\<close> recurses along the children lists of a map, so the model takes
  fuel: \<open>None\<close> is a recursion deeper than the fuel. The state is the row map (the visit
  stores the depth in the row) and the codes pushed onto \<open>flatRows\<close> so far.
\<close>

type_synonym flat_state = "(string, RowNode) jsmap \<times> string list"

fun visit :: "nat \<Rightarrow> string \<Rightarrow> nat \<Rightarrow> flat_state \<Rightarrow> flat_state option" where
  "visit 0 c d st = None"
| "visit (Suc n) c d st =
     (case map_of (fst st) c of
        None \<Rightarrow> Some st
      | Some r \<Rightarrow>
          foldl (\<lambda>acc ch. case acc of None \<Rightarrow> None | Some s \<Rightarrow> visit n ch (d + 1) s)
            (Some (AList.update c (r\<lparr>depth := d\<rparr>) (fst st), snd st @ [c]))
            (children r))"

definition visitRoots :: "nat \<Rightarrow> string list \<Rightarrow> (string, RowNode) jsmap \<Rightarrow> flat_state option" where
  "visitRoots n roots rb =
     foldl (\<lambda>acc c. case acc of None \<Rightarrow> None | Some s \<Rightarrow> visit n c 0 s) (Some (rb, [])) roots"

text \<open>\<open>flatRows\<close> holds the row objects themselves: the rows of the pushed codes.\<close>

definition rowsOfCodes :: "(string, RowNode) jsmap \<Rightarrow> string list \<Rightarrow> RowNode list" where
  "rowsOfCodes rb cs = List.map_filter (map_of rb) cs"

subsection \<open>Filling the value map with \<open>null\<close>\<close>

definition prefillRow :: "BucketedColumnKey list \<Rightarrow> cell map2 \<Rightarrow> RowNode \<Rightarrow> cell map2" where
  "prefillRow cols vm r =
     foldl (\<lambda>m col. if \<not> has2 m (code r) (key col) then put2 m (code r) (key col) None else m)
       (ensureRow vm (code r)) cols"

definition prefill :: "(string, RowNode) jsmap \<Rightarrow> BucketedColumnKey list \<Rightarrow> cell map2 \<Rightarrow> cell map2" where
  "prefill rb cols vm = foldl (prefillRow cols) vm (map snd rb)"

section \<open>The formula language\<close>

subsection \<open>Tokens\<close>

datatype token =
  TNumber string | TString string | TIdent string | TRef string | TOp string
  | TComma | TLParen | TRParen | TEof

definition isIdentStart :: "char \<Rightarrow> bool" where
  "isIdentStart c = (isUpper c \<or> isLower c \<or> c = CHR ''_'')"

definition isIdentPart :: "char \<Rightarrow> bool" where
  "isIdentPart c = (isUpper c \<or> isLower c \<or> isDigit c \<or> c = CHR ''_'')"

text \<open>The body of a quoted string, from after the opening quote: the text up to the
  closing quote, a backslash taking the next character as it is; and the rest.\<close>

fun scanString :: "char \<Rightarrow> string \<Rightarrow> string \<Rightarrow> string \<times> string" where
  "scanString q out [] = (out, [])"
| "scanString q out [c] = (if c = q then (out, []) else (out @ [c], []))"
| "scanString q out (c # n # cs) =
     (if c = q then (out, n # cs)
      else if c = CHR 0x5C then scanString q (out @ [n]) cs
      else scanString q (out @ [c]) (n # cs))"

definition ops2 :: "string list" where
  "ops2 = [''>='', ''<='', ''=='', ''!='', ''&&'', ''||'']"

definition oneOps :: "char list" where
  "oneOps = [CHR ''+'', CHR ''-'', CHR ''*'', CHR ''/'', CHR ''^'', CHR ''>'', CHR ''<'', CHR ''!'']"

text \<open>
  \<open>ExprTokenizer.next\<close>. The tokenizer's state is its index into the text; the model
  keeps the text from the index on, and returns it after the token.
\<close>

definition nextToken :: "string \<Rightarrow> token \<times> string" where
  "nextToken txt =
     (let s = dropWhile isWs txt in
      case s of
        [] \<Rightarrow> (TEof, [])
      | ch # rest \<Rightarrow>
          if ch = CHR '','' then (TComma, rest)
          else if ch = CHR ''('' then (TLParen, rest)
          else if ch = CHR '')'' then (TRParen, rest)
          else if ch = CHR ''['' then
            (if CHR '']'' \<notin> set rest then (TRef (trim rest), [])
             else (TRef (trim (takeWhile (\<lambda>c. c \<noteq> CHR '']'') rest)),
                   tl (dropWhile (\<lambda>c. c \<noteq> CHR '']'') rest)))
          else if ch = CHR 0x22 \<or> ch = CHR 0x27 then
            (let r = scanString ch [] rest in (TString (fst r), snd r))
          else if take 2 s \<in> set ops2 then (TOp (take 2 s), drop 2 s)
          else if ch \<in> set oneOps then (TOp [ch], rest)
          else if isDigit ch \<or> (ch = CHR ''.'' \<and> (case rest of [] \<Rightarrow> False | c # _ \<Rightarrow> isDigit c)) then
            (TNumber (ch # takeWhile (\<lambda>c. isDigit c \<or> c = CHR ''.'') rest),
             dropWhile (\<lambda>c. isDigit c \<or> c = CHR ''.'') rest)
          else if isIdentStart ch then
            (let raw = ch # takeWhile isIdentPart rest;
                 upper = toUpperCase raw;
                 after = dropWhile isIdentPart rest
             in if upper = ''AND'' then (TOp ''AND'', after)
                else if upper = ''OR'' then (TOp ''OR'', after)
                else if upper = ''NOT'' then (TOp ''NOT'', after)
                else (TIdent raw, after))
          else (TOp [ch], rest))"

subsection \<open>The parser\<close>

datatype ast =
  ANum jsnum | AStr string | ARef string | AIdent string
  | AUn string ast | ABin string ast ast | ACall string "ast list"

text \<open>The result of a parsing function: a value, an exception, or out of fuel.\<close>

datatype 'a pres = Ok 'a | Threw | NoFuel

text \<open>The parser's state: the lookahead token and the tokenizer's state.\<close>

type_synonym pstate = "token \<times> string"

definition advance :: "pstate \<Rightarrow> pstate" where
  "advance st = nextToken (snd st)"

text \<open>\<open>match("op", v)\<close> for one of the values \<open>vs\<close>.\<close>

definition isOp :: "token \<Rightarrow> string list \<Rightarrow> bool" where
  "isOp t vs = (case t of TOp v \<Rightarrow> v \<in> set vs | _ \<Rightarrow> False)"

text \<open>\<open>parseFloat\<close> of a number token (digits and dots): the longest prefix that is a
  decimal literal.\<close>

definition digitsValue :: "string \<Rightarrow> nat" where
  "digitsValue ds = foldl (\<lambda>a c. 10 * a + (of_char c - 48)) 0 ds"

definition parseFloat :: "string \<Rightarrow> jsnum" where
  "parseFloat s =
     (let ip = takeWhile isDigit s;
          r = dropWhile isDigit s;
          fp = (case r of [] \<Rightarrow> [] | c # r' \<Rightarrow> if c = CHR ''.'' then takeWhile isDigit r' else [])
      in if ip = [] \<and> fp = [] then NaN
         else fin (of_nat (digitsValue ip) + of_nat (digitsValue fp) / 10 ^ length fp))"

text \<open>
  The seven binary levels of the grammar are seven functions of one shape in the source
  (\<open>parseOr\<close>, \<open>parseAnd\<close>, \<open>parseEquality\<close>, \<open>parseComparison\<close>, \<open>parseTerm\<close>,
  \<open>parseFactor\<close>, \<open>parsePower\<close>): parse an operand of the next level, then, while the
  lookahead is one of the level's operators, eat it and parse another operand. They are
  \<open>parseLevel\<close> at levels 7 down to 1, with \<open>parseLoop\<close> for the \<open>while\<close>; level 0 is
  \<open>parseUnary\<close>.
\<close>

definition levelOps :: "nat \<Rightarrow> string list" where
  "levelOps lvl =
     (if lvl = 7 then [''OR'', ''||'']
      else if lvl = 6 then [''AND'', ''&&'']
      else if lvl = 5 then [''=='', ''!='']
      else if lvl = 4 then [''>'', ''<'', ''>='', ''<='']
      else if lvl = 3 then [''+'', ''-'']
      else if lvl = 2 then [''*'', ''/'']
      else if lvl = 1 then [''^'']
      else [])"

function (sequential) parseLevel :: "nat \<Rightarrow> nat \<Rightarrow> pstate \<Rightarrow> (ast \<times> pstate) pres"
and parseLoop :: "nat \<Rightarrow> nat \<Rightarrow> ast \<Rightarrow> pstate \<Rightarrow> (ast \<times> pstate) pres"
and parseUnary :: "nat \<Rightarrow> pstate \<Rightarrow> (ast \<times> pstate) pres"
and parsePrimary :: "nat \<Rightarrow> pstate \<Rightarrow> (ast \<times> pstate) pres"
and parseArgs :: "nat \<Rightarrow> ast list \<Rightarrow> pstate \<Rightarrow> (ast list \<times> pstate) pres"
where
  "parseLevel 0 lvl st = NoFuel"
| "parseLevel (Suc n) lvl st =
     (if lvl = 0 then parseUnary n st
      else (case parseLevel n (lvl - 1) st of
              Ok r \<Rightarrow> parseLoop n lvl (fst r) (snd r)
            | Threw \<Rightarrow> Threw
            | NoFuel \<Rightarrow> NoFuel))"
| "parseLoop 0 lvl left st = NoFuel"
| "parseLoop (Suc n) lvl left st =
     (case fst st of
        TOp op \<Rightarrow>
          (if op \<in> set (levelOps lvl) then
             (case parseLevel n (lvl - 1) (advance st) of
                Ok r \<Rightarrow> parseLoop n lvl (ABin op left (fst r)) (snd r)
              | Threw \<Rightarrow> Threw
              | NoFuel \<Rightarrow> NoFuel)
           else Ok (left, st))
      | _ \<Rightarrow> Ok (left, st))"
| "parseUnary 0 st = NoFuel"
| "parseUnary (Suc n) st =
     (case fst st of
        TOp op \<Rightarrow>
          (if op \<in> set [''+'', ''-'', ''NOT'', ''!''] then
             (case parseUnary n (advance st) of
                Ok r \<Rightarrow> Ok (AUn op (fst r), snd r)
              | Threw \<Rightarrow> Threw
              | NoFuel \<Rightarrow> NoFuel)
           else parsePrimary n st)
      | _ \<Rightarrow> parsePrimary n st)"
| "parsePrimary 0 st = NoFuel"
| "parsePrimary (Suc n) st =
     (case fst st of
        TNumber s \<Rightarrow> Ok (ANum (parseFloat s), advance st)
      | TString s \<Rightarrow> Ok (AStr s, advance st)
      | TRef r \<Rightarrow> Ok (ARef r, advance st)
      | TIdent ident \<Rightarrow>
          (let st1 = advance st in
           if fst st1 = TLParen then
             (let st2 = advance st1 in
              case (if fst st2 \<noteq> TRParen then parseArgs n [] st2 else Ok ([], st2)) of
                Ok r \<Rightarrow>
                  (if fst (snd r) = TRParen then Ok (ACall ident (fst r), advance (snd r))
                   else Threw)
              | Threw \<Rightarrow> Threw
              | NoFuel \<Rightarrow> NoFuel)
           else Ok (AIdent ident, st1))
      | TLParen \<Rightarrow>
          (case parseLevel n 7 (advance st) of
             Ok r \<Rightarrow> (if fst (snd r) = TRParen then Ok (fst r, advance (snd r)) else Threw)
           | Threw \<Rightarrow> Threw
           | NoFuel \<Rightarrow> NoFuel)
      | TEof \<Rightarrow> Ok (ANum (Fin 0), st)
      | _ \<Rightarrow> Threw)"
| "parseArgs 0 acc st = NoFuel"
| "parseArgs (Suc n) acc st =
     (case parseLevel n 7 st of
        Ok r \<Rightarrow>
          (if fst (snd r) = TComma then parseArgs n (acc @ [fst r]) (advance (snd r))
           else Ok (acc @ [fst r], snd r))
      | Threw \<Rightarrow> Threw
      | NoFuel \<Rightarrow> NoFuel)"
  by pat_completeness auto
termination
  by (relation "measure (\<lambda>x. case x of
          Inl (Inl (n, _)) \<Rightarrow> n
        | Inl (Inr (n, _)) \<Rightarrow> n
        | Inr (Inl (n, _)) \<Rightarrow> n
        | Inr (Inr (Inl (n, _))) \<Rightarrow> n
        | Inr (Inr (Inr (n, _))) \<Rightarrow> n)") auto

definition parseOr :: "nat \<Rightarrow> pstate \<Rightarrow> (ast \<times> pstate) pres" where
  "parseOr n st = parseLevel n 7 st"

text \<open>The fuel that \<open>new ExprParser(text).parse()\<close> is run with.\<close>

definition parseFuel :: "string \<Rightarrow> nat" where
  "parseFuel txt = 16 * (length txt + 2)"

text \<open>\<open>new ExprParser(text).parse()\<close>: the constructor reads the first token.\<close>

definition parseFormula :: "string \<Rightarrow> ast pres" where
  "parseFormula txt =
     (case parseOr (parseFuel txt) (nextToken txt) of
        Ok r \<Rightarrow> Ok (fst r)
      | Threw \<Rightarrow> Threw
      | NoFuel \<Rightarrow> NoFuel)"

subsection \<open>Evaluation\<close>

text \<open>What a formula is evaluated in: the runtime's functions, the blank-as-zero
  setting, the row map and the value map.\<close>

record env =
  envB :: builtins
  envBlankAsZero :: bool
  envRows :: "(string, RowNode) jsmap"
  envValues :: "cell map2"

definition getCell :: "env \<Rightarrow> string \<Rightarrow> string \<Rightarrow> cell" where
  "getCell E c k =
     (case lookup2 (envValues E) c k of
        Some (Some v) \<Rightarrow> Some v
      | _ \<Rightarrow> (if envBlankAsZero E then Some (Fin 0) else None))"

definition cellVal :: "cell \<Rightarrow> jsval" where
  "cellVal c = (case c of Some v \<Rightarrow> VNum v | None \<Rightarrow> VNull)"

text \<open>\<open>asRowCode\<close>: \<open>String(x ?? "").trim()\<close>.\<close>

definition asRowCode :: "builtins \<Rightarrow> jsval \<Rightarrow> string" where
  "asRowCode B x = trim (strOrEmpty B x)"

text \<open>\<open>args[i]\<close>.\<close>

definition argAt :: "jsval list \<Rightarrow> nat \<Rightarrow> jsval" where
  "argAt args i = (if i < length args then args ! i else VUndefined)"

text \<open>The numbers that \<open>agg\<close> collects from the arguments.\<close>

fun aggNums :: "env \<Rightarrow> string \<Rightarrow> jsval list \<Rightarrow> jsnum list" where
  "aggNums E ck [] = []"
| "aggNums E ck (a # as) =
     (case a of
        VStr s \<Rightarrow>
          (case getCell E (asRowCode (envB E) a) ck of
             None \<Rightarrow> aggNums E ck as
           | Some v \<Rightarrow> v # aggNums E ck as)
      | _ \<Rightarrow>
          (let n = toNumber (envB E) a in
           if \<not> isFinite n then aggNums E ck as else n # aggNums E ck as))"

definition jsum :: "jsnum list \<Rightarrow> jsnum" where
  "jsum xs = foldl jadd (Fin 0) xs"

definition agg :: "string \<Rightarrow> jsnum list \<Rightarrow> jsnum" where
  "agg mode nums =
     (if mode = ''COUNT'' then Fin (of_nat (length nums))
      else if length nums = 0 then Fin 0
      else if mode = ''SUM'' then jsum nums
      else if mode = ''AVG'' then jdiv (jsum nums) (Fin (of_nat (length nums)))
      else if mode = ''MIN'' then Math_min nums
      else if mode = ''MAX'' then Math_max nums
      else Fin 0)"

text \<open>The values of the children of a row that have one, in the current column.\<close>

definition childVals :: "env \<Rightarrow> string \<Rightarrow> string list \<Rightarrow> jsnum list" where
  "childVals E ck cs = List.map_filter (\<lambda>c. getCell E c ck) cs"

text \<open>The \<open>call\<close> case of \<open>evalAst\<close>, after the arguments are evaluated.\<close>

definition evalCall :: "env \<Rightarrow> string \<Rightarrow> string \<Rightarrow> jsval list \<Rightarrow> jsval" where
  "evalCall E ck nm args =
     (let B = envB E in
      if nm = ''VALUE'' then
        (let c = asRowCode B (argAt args 0);
             m = (if length args \<ge> 2 then asRowCode B (argAt args 1) else []);
             period = (if length args \<ge> 3 then asRowCode B (argAt args 2) else []);
             colKey = (if m \<noteq> [] \<or> period \<noteq> [] then
                         (if period \<noteq> [] \<and> m \<noteq> [] then period @ ''||'' @ m
                          else if m \<noteq> [] then m
                          else period)
                       else ck)
         in cellVal (getCell E c colKey))
      else if nm = ''IF'' then
        (if toBool (argAt args 0) then VNum (toNumber B (argAt args 1))
         else VNum (toNumber B (argAt args 2)))
      else if nm = ''ABS'' then VNum (Math_abs (toNumber B (argAt args 0)))
      else if nm = ''ROUND'' then
        (let n = toNumber B (argAt args 0);
             d = (if length args \<ge> 2
                  then Math_max2 (Fin 0) (Math_floor (toNumber B (argAt args 1))) else Fin 0);
             p = Math_pow B (Fin 10) d
         in VNum (jdiv (Math_round (jmul n p)) p))
      else if nm = ''SUM'' \<or> nm = ''AVG'' \<or> nm = ''MIN'' \<or> nm = ''MAX'' \<or> nm = ''COUNT'' then
        VNum (agg nm (aggNums E ck args))
      else if nm = ''SUMCHILDREN'' \<or> nm = ''AVGCHILDREN'' \<or> nm = ''COUNTCHILDREN'' then
        (case map_of (envRows E) (asRowCode B (argAt args 0)) of
           None \<Rightarrow> VNum (Fin 0)
         | Some node \<Rightarrow>
             (let cv = childVals E ck (children node) in
              if nm = ''COUNTCHILDREN'' then VNum (Fin (of_nat (length cv)))
              else if length cv = 0 then VNum (Fin 0)
              else if nm = ''SUMCHILDREN'' then VNum (jsum cv)
              else VNum (jdiv (jsum cv) (Fin (of_nat (length cv))))))
      else VNum (Fin 0))"

definition evalBin :: "builtins \<Rightarrow> string \<Rightarrow> jsval \<Rightarrow> jsval \<Rightarrow> jsval" where
  "evalBin B op l r =
     (if op = ''+'' then VNum (jadd (toNumber B l) (toNumber B r))
      else if op = ''-'' then VNum (jsub (toNumber B l) (toNumber B r))
      else if op = ''*'' then VNum (jmul (toNumber B l) (toNumber B r))
      else if op = ''/'' then VNum (jdiv (toNumber B l) (toNumber B r))
      else if op = ''^'' then VNum (Math_pow B (toNumber B l) (toNumber B r))
      else if op = ''>'' then VBool (jlt (toNumber B r) (toNumber B l))
      else if op = ''<'' then VBool (jlt (toNumber B l) (toNumber B r))
      else if op = ''>='' then VBool (jle (toNumber B r) (toNumber B l))
      else if op = ''<='' then VBool (jle (toNumber B l) (toNumber B r))
      else if op = ''=='' then VBool (jeq (toNumber B l) (toNumber B r))
      else if op = ''!='' then VBool (\<not> jeq (toNumber B l) (toNumber B r))
      else if op = ''AND'' \<or> op = ''&&'' then VBool (toBool l \<and> toBool r)
      else if op = ''OR'' \<or> op = ''||'' then VBool (toBool l \<or> toBool r)
      else VNum (Fin 0))"

definition evalUn :: "builtins \<Rightarrow> string \<Rightarrow> jsval \<Rightarrow> jsval" where
  "evalUn B op v =
     (if op = ''+'' then VNum (toNumber B v)
      else if op = ''-'' then VNum (jneg (toNumber B v))
      else if op = ''NOT'' \<or> op = ''!'' then VBool (\<not> toBool v)
      else VNum (toNumber B v))"

fun evalAst :: "env \<Rightarrow> string \<Rightarrow> ast \<Rightarrow> jsval" where
  "evalAst E ck (ANum v) = VNum v"
| "evalAst E ck (AStr s) = VStr s"
| "evalAst E ck (ARef r) = cellVal (getCell E r ck)"
| "evalAst E ck (AIdent v) =
     (let upper = toUpperCase v in
      if upper = ''TRUE'' then VBool True
      else if upper = ''FALSE'' then VBool False
      else VNum (Fin 0))"
| "evalAst E ck (AUn op e) = evalUn (envB E) (toUpperCase op) (evalAst E ck e)"
| "evalAst E ck (ABin op l r) =
     evalBin (envB E) (toUpperCase op) (evalAst E ck l) (evalAst E ck r)"
| "evalAst E ck (ACall name args) =
     evalCall E ck (toUpperCase name) (map (evalAst E ck) args)"

subsection \<open>The fixpoint loop over the calc rows\<close>

definition calcRows :: "(string, RowNode) jsmap \<Rightarrow> RowNode list" where
  "calcRows rb = filter (\<lambda>r. rtype r = TCalc \<and> truthy (formula r)) (map snd rb)"

text \<open>\<open>prev !== next\<close> on cells.\<close>

definition strictNe :: "cell \<Rightarrow> cell \<Rightarrow> bool" where
  "strictNe a b =
     (case (a, b) of
        (None, None) \<Rightarrow> False
      | (Some x, Some y) \<Rightarrow> \<not> jeq x y
      | _ \<Rightarrow> True)"

text \<open>The state of a pass: the value map and the flag \<open>changed\<close>.\<close>

type_synonym pass_state = "cell map2 \<times> bool"

definition formulaCell ::
  "builtins \<Rightarrow> bool \<Rightarrow> (string, RowNode) jsmap \<Rightarrow> RowNode \<Rightarrow> ast option
     \<Rightarrow> pass_state \<Rightarrow> BucketedColumnKey \<Rightarrow> pass_state" where
  "formulaCell B baz rb r a ps col =
     (let vm = fst ps in
      case a of
        None \<Rightarrow> (setComputed vm (code r) (key col) None, snd ps)
      | Some tree \<Rightarrow>
          (let out = evalAst \<lparr>envB = B, envBlankAsZero = baz, envRows = rb, envValues = vm\<rparr>
                       (key col) tree;
               num = toNumber B out;
               prev = (case lookup2 vm (code r) (key col) of Some c \<Rightarrow> c | None \<Rightarrow> None);
               next = (if isFinite num then Some num else (if baz then Some (Fin 0) else None))
           in if strictNe prev next then (setComputed vm (code r) (key col) next, True)
              else ps))"

definition formulaText :: "RowNode \<Rightarrow> string" where
  "formulaText r = (case formula r of Some f \<Rightarrow> f | None \<Rightarrow> [])"

definition formulaRow ::
  "builtins \<Rightarrow> bool \<Rightarrow> (string, RowNode) jsmap \<Rightarrow> BucketedColumnKey list
     \<Rightarrow> pass_state \<Rightarrow> RowNode \<Rightarrow> pass_state" where
  "formulaRow B baz rb cols ps r =
     (let a = (case parseFormula (formulaText r) of Ok t \<Rightarrow> Some t | _ \<Rightarrow> None)
      in foldl (formulaCell B baz rb r a) ps cols)"

definition formulaPass ::
  "builtins \<Rightarrow> bool \<Rightarrow> (string, RowNode) jsmap \<Rightarrow> BucketedColumnKey list
     \<Rightarrow> cell map2 \<Rightarrow> pass_state" where
  "formulaPass B baz rb cols vm = foldl (formulaRow B baz rb cols) (vm, False) (calcRows rb)"

function formulaLoop ::
  "builtins \<Rightarrow> bool \<Rightarrow> (string, RowNode) jsmap \<Rightarrow> BucketedColumnKey list
     \<Rightarrow> nat \<Rightarrow> cell map2 \<Rightarrow> cell map2" where
  "formulaLoop B baz rb cols pass vm =
     (if pass < 6 then
        (let ps = formulaPass B baz rb cols vm in
         if \<not> snd ps then fst ps else formulaLoop B baz rb cols (pass + 1) (fst ps))
      else vm)"
  by pat_completeness auto
termination
  by (relation "measure (\<lambda>(B, baz, rb, cols, pass, vm). 6 - pass)") auto

definition evalFormulas ::
  "builtins \<Rightarrow> bool \<Rightarrow> (string, RowNode) jsmap \<Rightarrow> BucketedColumnKey list
     \<Rightarrow> cell map2 \<Rightarrow> cell map2" where
  "evalFormulas B baz rb cols vm = formulaLoop B baz rb cols 0 vm"

section \<open>Parents, subtotals and the grand total\<close>

text \<open>
  The three places that sum cells share one loop body: over the rows or children read,
  \<open>if (cv == null) continue; hasAny = true; sum += cv\<close>. The pair is \<open>(sum, hasAny)\<close>.
\<close>

definition sumStep :: "cell map2 \<Rightarrow> string \<Rightarrow> jsnum \<times> bool \<Rightarrow> string \<Rightarrow> jsnum \<times> bool" where
  "sumStep vm k acc c =
     (case lookup2 vm c k of
        Some (Some cv) \<Rightarrow> (jadd (fst acc) cv, True)
      | _ \<Rightarrow> acc)"

definition sumCells :: "cell map2 \<Rightarrow> string \<Rightarrow> string list \<Rightarrow> jsnum \<times> bool" where
  "sumCells vm k cs = foldl (sumStep vm k) (Fin 0, False) cs"

text \<open>\<open>hasAny ? sum : (blankAsZero ? 0 : null)\<close>.\<close>

definition totalOf :: "bool \<Rightarrow> jsnum \<times> bool \<Rightarrow> cell" where
  "totalOf baz acc = (if snd acc then Some (fst acc) else (if baz then Some (Fin 0) else None))"

subsection \<open>Auto-aggregation of parents\<close>

definition aggregateCell :: "bool \<Rightarrow> RowNode \<Rightarrow> cell map2 \<Rightarrow> BucketedColumnKey \<Rightarrow> cell map2" where
  "aggregateCell baz r vm col =
     (case lookup2 vm (code r) (key col) of
        Some (Some existing) \<Rightarrow> vm
      | _ \<Rightarrow> setComputed vm (code r) (key col)
               (totalOf baz (sumCells vm (key col) (children r))))"

definition aggregateRow :: "bool \<Rightarrow> BucketedColumnKey list \<Rightarrow> cell map2 \<Rightarrow> RowNode \<Rightarrow> cell map2" where
  "aggregateRow baz cols vm r =
     (if rtype r = TBlank \<or> rtype r = TCalc \<or> length (children r) = 0 then vm
      else foldl (aggregateCell baz r) vm cols)"

definition autoAggregate ::
  "bool \<Rightarrow> RowNode list \<Rightarrow> BucketedColumnKey list \<Rightarrow> cell map2 \<Rightarrow> cell map2" where
  "autoAggregate baz flatRows cols vm = foldl (aggregateRow baz cols) vm (rev flatRows)"

subsection \<open>Subtotals\<close>

text \<open>
  The replacement text of \<open>String.prototype.replace\<close> for one match of a pattern without
  capture groups: in the replacement string, \<open>$$\<close> is a dollar sign, \<open>$&\<close> the matched
  text, a dollar sign and a backquote the text before the match, a dollar sign and a quote
  the text after it; every other character, and \<open>$1\<close> and the like, stand for themselves.
\<close>

fun getSubstitution :: "string \<Rightarrow> string \<Rightarrow> string \<Rightarrow> string \<Rightarrow> string" where
  "getSubstitution m pre post [] = []"
| "getSubstitution m pre post [c] = [c]"
| "getSubstitution m pre post (c # d # cs) =
     (if c = CHR 0x24 then
        (if d = CHR 0x24 then CHR 0x24 # getSubstitution m pre post cs
         else if d = CHR 0x26 then m @ getSubstitution m pre post cs
         else if d = CHR 0x60 then pre @ getSubstitution m pre post cs
         else if d = CHR 0x27 then post @ getSubstitution m pre post cs
         else c # getSubstitution m pre post (d # cs))
      else c # getSubstitution m pre post (d # cs))"

text \<open>\<open>tpl.replace(/\{label\}/g, base)\<close>: \<open>pre\<close> is the text of the template read so far,
  and \<open>skip\<close> counts the characters of a placeholder still to drop.\<close>

fun replaceLabel :: "nat \<Rightarrow> string \<Rightarrow> string \<Rightarrow> string \<Rightarrow> string" where
  "replaceLabel skip pre base [] = []"
| "replaceLabel skip pre base (c # cs) =
     (if skip > 0 then replaceLabel (skip - 1) (pre @ [c]) base cs
      else if take 7 (c # cs) = ''{label}''
        then getSubstitution ''{label}'' pre (drop 6 cs) base @ replaceLabel 6 (pre @ [c]) base cs
      else c # replaceLabel 0 (pre @ [c]) base cs)"

definition subtotalLabelTemplate :: "settings \<Rightarrow> string" where
  "subtotalLabelTemplate cfg =
     (let t = trim (case subtotalLabelTemplateSetting cfg of Some s \<Rightarrow> s | None \<Rightarrow> ''Total {label}'')
      in if t \<noteq> [] then t else ''Total {label}'')"

definition grandTotalLabel :: "settings \<Rightarrow> string" where
  "grandTotalLabel cfg =
     (let t = trim (case grandTotalLabelSetting cfg of Some s \<Rightarrow> s | None \<Rightarrow> ''Grand Total'')
      in if t \<noteq> [] then t else ''Grand Total'')"

definition formatSubtotalLabel :: "settings \<Rightarrow> string \<Rightarrow> string" where
  "formatSubtotalLabel cfg lab =
     (let base = trim lab; tpl = subtotalLabelTemplate cfg in
      if includes_str tpl ''{label}'' then
        (let out = trim (replaceLabel 0 [] base tpl) in
         if out \<noteq> [] then out else ''Total '' @ base)
      else trim tpl)"

definition subtotalCode :: "string \<Rightarrow> string" where
  "subtotalCode c = c @ ''||__subtotal''"

definition subtotalRow :: "settings \<Rightarrow> RowNode \<Rightarrow> RowNode" where
  "subtotalRow cfg r =
     \<lparr>code = subtotalCode (code r), label = formatSubtotalLabel cfg (label r),
      parent = parent r, rtype = TCalc, orderIndex = orderIndex r + 1 / 2,
      order = order r, formula = None, rowStyle = None, children = [],
      depth = depth r, rowLevel = rowLevel r, groupKey = groupKey r, isTotal = True\<rparr>"

text \<open>The state of the subtotal traversal: the list \<open>out\<close> and the value map.\<close>

type_synonym sub_state = "RowNode list \<times> cell map2"

definition subtotalCells ::
  "bool \<Rightarrow> RowNode \<Rightarrow> BucketedColumnKey list \<Rightarrow> cell map2 \<Rightarrow> cell map2" where
  "subtotalCells baz r cols vm =
     foldl (\<lambda>m col. put2 m (subtotalCode (code r)) (key col)
                       (totalOf baz (sumCells m (key col) (children r))))
       (ensureRow vm (subtotalCode (code r))) cols"

definition pushSubtotalFor ::
  "settings \<Rightarrow> BucketedColumnKey list \<Rightarrow> RowNode \<Rightarrow> sub_state \<Rightarrow> sub_state" where
  "pushSubtotalFor cfg cols r st =
     (if rowLevel r = Some (- 1) then st
      else if rtype r = TBlank \<or> rtype r = TCalc then st
      else if length (children r) = 0 then st
      else (fst st @ [subtotalRow cfg r], subtotalCells (blankAsZero cfg) r cols (snd st)))"

fun visitWithSubtotals ::
  "nat \<Rightarrow> settings \<Rightarrow> BucketedColumnKey list \<Rightarrow> (string, RowNode) jsmap \<Rightarrow> string
     \<Rightarrow> sub_state \<Rightarrow> sub_state option" where
  "visitWithSubtotals 0 cfg cols rb c st = None"
| "visitWithSubtotals (Suc n) cfg cols rb c st =
     (case map_of rb c of
        None \<Rightarrow> Some st
      | Some r \<Rightarrow>
          (case foldl (\<lambda>acc ch. case acc of None \<Rightarrow> None
                                  | Some s \<Rightarrow> visitWithSubtotals n cfg cols rb ch s)
                  (Some (fst st @ [r], snd st)) (children r) of
             None \<Rightarrow> None
           | Some s \<Rightarrow> Some (pushSubtotalFor cfg cols r s)))"

definition injectSubtotals ::
  "nat \<Rightarrow> settings \<Rightarrow> BucketedColumnKey list \<Rightarrow> (string, RowNode) jsmap \<Rightarrow> string list
     \<Rightarrow> cell map2 \<Rightarrow> sub_state option" where
  "injectSubtotals n cfg cols rb roots vm =
     foldl (\<lambda>acc c. case acc of None \<Rightarrow> None | Some s \<Rightarrow> visitWithSubtotals n cfg cols rb c s)
       (Some ([], vm)) roots"

subsection \<open>The grand total\<close>

definition grandTotalCode :: string where
  "grandTotalCode = ''__grand_total''"

definition grandTotalRow :: "settings \<Rightarrow> RowNode" where
  "grandTotalRow cfg =
     \<lparr>code = grandTotalCode, label = grandTotalLabel cfg, parent = None, rtype = TCalc,
      orderIndex = 1000000, order = None, formula = None, rowStyle = None, children = [],
      depth = 0, rowLevel = None, groupKey = None, isTotal = True\<rparr>"

definition sumRows :: "RowNode list \<Rightarrow> RowNode list" where
  "sumRows flatRows =
     filter (\<lambda>r. rtype r \<noteq> TBlank \<and> length (children r) = 0 \<and> \<not> isTotal r) flatRows"

definition grandTotalCells ::
  "bool \<Rightarrow> RowNode list \<Rightarrow> BucketedColumnKey list \<Rightarrow> cell map2 \<Rightarrow> cell map2" where
  "grandTotalCells baz flatRows cols vm =
     foldl (\<lambda>m col. put2 m grandTotalCode (key col)
                       (totalOf baz (sumCells m (key col) (map code (sumRows flatRows)))))
       (ensureRow vm grandTotalCode) cols"

definition injectGrandTotal ::
  "settings \<Rightarrow> BucketedColumnKey list \<Rightarrow> sub_state \<Rightarrow> sub_state" where
  "injectGrandTotal cfg cols st =
     (fst st @ [grandTotalRow cfg],
      grandTotalCells (blankAsZero cfg) (fst st) cols (snd st))"

section \<open>The model rebuild\<close>

record Model =
  mColumns :: "BucketedColumnKey list"
  mRows :: "RowNode list"
  mValues :: "cell map2"
  mValuesRaw :: "jsval map2"

text \<open>
  What \<open>buildModel\<close> has built when the rows are flattened and the value map is filled
  with \<open>null\<close> (lines 5303 to 5751): the sorted columns, the row map, the sorted roots,
  \<open>flatRows\<close>, and the two cell maps. The visits run with more fuel than there are rows.
\<close>

record hierarchy =
  hColumns :: "BucketedColumnKey list"
  hRowByCode :: "(string, RowNode) jsmap"
  hRoots :: "string list"
  hFlatRows :: "RowNode list"
  hValues :: "cell map2"
  hValuesRaw :: "jsval map2"

definition buildHierarchy :: "builtins \<Rightarrow> settings \<Rightarrow> DataRow list \<Rightarrow> hierarchy option" where
  "buildHierarchy B cfg rs =
     (let ds = readData B rs;
          cols = sortColumns B (columns ds);
          rb0 = buildRows ds (formulas cfg) (layoutRows cfg);
          rb1 = linkChildren rb0;
          roots0 = rootsOf rb1;
          rb2 = sortAllChildren B rb1;
          roots = sortChildren B rb2 roots0
      in case visitRoots (Suc (length rb2)) roots rb2 of
           None \<Rightarrow> None
         | Some fs \<Rightarrow>
             Some \<lparr>hColumns = cols, hRowByCode = fst fs, hRoots = roots,
                   hFlatRows = rowsOfCodes (fst fs) (snd fs),
                   hValues = prefill (fst fs) cols (valuesMap (cellMaps ds)),
                   hValuesRaw = valuesRawMap (cellMaps ds)\<rparr>)"

text \<open>The rest of \<open>buildModel\<close> (lines 5753 to 6048), in the order of the source: the
  formula fixpoint, then the auto-aggregation of parents (\<open>computedValues\<close>), then the
  subtotals, then the grand total.\<close>

definition computedValues :: "builtins \<Rightarrow> settings \<Rightarrow> hierarchy \<Rightarrow> cell map2" where
  "computedValues B cfg h =
     (let vm1 = evalFormulas B (blankAsZero cfg) (hRowByCode h) (hColumns h) (hValues h)
      in if autoAggregateParents cfg
         then autoAggregate (blankAsZero cfg) (hFlatRows h) (hColumns h) vm1 else vm1)"

definition finishModel :: "builtins \<Rightarrow> settings \<Rightarrow> hierarchy \<Rightarrow> Model option" where
  "finishModel B cfg h =
     (let cols = hColumns h; rb = hRowByCode h;
          vm2 = computedValues B cfg h
      in case (if showSubtotals cfg
               then injectSubtotals (Suc (length rb)) cfg cols rb (hRoots h) vm2
               else Some (hFlatRows h, vm2)) of
           None \<Rightarrow> None
         | Some st \<Rightarrow>
             (let st' = (if showGrandTotal cfg then injectGrandTotal cfg cols st else st)
              in Some \<lparr>mColumns = cols, mRows = fst st', mValues = snd st',
                       mValuesRaw = hValuesRaw h\<rparr>))"

definition buildModel :: "builtins \<Rightarrow> settings \<Rightarrow> DataRow list \<Rightarrow> Model option" where
  "buildModel B cfg rs =
     (case buildHierarchy B cfg rs of None \<Rightarrow> None | Some h \<Rightarrow> finishModel B cfg h)"

section \<open>The order of the stages in the specification\<close>





subsection \<open>Example: two background rules on one cell\<close>

definition bgRule :: "string \<Rightarrow> string \<Rightarrow> bool option \<Rightarrow> CFRule" where
  "bgRule i colour b =
     \<lparr>rid = i, enabled = True, target = TargetCell, scope = Some ScopeSelf,
      formatProp = Some PropBackground, rowMatchMode = MatchAny, rowMatchText = [],
      colMatchMode = MatchAny, colMatchText = [], conditionType = CondValue,
      operator = OpGte, value1 = ''0'', value2 = [],
      style = emptyStyle\<lparr>background := Some colour, bold := b\<rparr>\<rparr>"

definition cellCtx :: CFCtx where
  "cellCtx = \<lparr>ctxTarget = TargetCell, ctxFormatProp = Some PropBackground,
     ctxRowCode = Some ''US'', ctxRowLabel = Some ''US'', ctxColKey = Some ''k'',
     ctxColText = Some ''2023'', ctxValue = Some (Some (Fin 5)), ctxText = None\<rparr>"

definition numB :: builtins where
  "numB = \<lparr>Number_of_string = (\<lambda>s. if s = ''0'' then Fin 0 else NaN),
            String_of_number = (\<lambda>n. []), Math_pow = (\<lambda>a b. NaN), localeCompare = (\<lambda>a b. 0)\<rparr>"


subsection \<open>Example: the end-to-end case of the specification\<close>

text \<open>Rows US and EU, columns 2023 and 2024, measure Sales; EU has no record for 2024.
  Blank-as-zero, auto-aggregation and the grand total are on.\<close>

definition exCfg :: settings where
  "exCfg = \<lparr>blankAsZero = True, autoAggregateParents = True, showSubtotals = False,
     showGrandTotal = True, grandTotalLabelSetting = None, subtotalLabelTemplateSetting = None,
     layoutRows = [], formulas = Map.empty\<rparr>"

definition exRecord :: "string \<Rightarrow> string \<Rightarrow> rat \<Rightarrow> DataRow" where
  "exRecord r c v = \<lparr>rowValues = [VStr r], groupValue = VUndefined, columnValues = [VStr c],
     measureValues = [(''Sales'', VNum (Fin v))]\<rparr>"

definition exRecs :: "DataRow list" where
  "exRecs = [exRecord ''US'' ''2023'' 100, exRecord ''US'' ''2024'' 150, exRecord ''EU'' ''2023'' 80]"

subsection \<open>Example: a blank layout row that the data feeds\<close>

text \<open>The layout declares EU as a blank row; the records are those of the example above.\<close>

definition exBlankCfg :: settings where
  "exBlankCfg = exCfg\<lparr>layoutRows :=
     [\<lparr>l_code = ''EU'', l_label = None, l_parent = None, l_type = Some TBlank,
       l_order = None, l_formula = None, l_style = None\<rparr>]\<rparr>"


subsection \<open>Example: a declared parent over the rows of the data\<close>

text \<open>The layout declares REV, of a given type, and the rows US and EU as its children;
  subtotals are on and the grand total is off.\<close>

definition exChildRow :: "string \<Rightarrow> string \<Rightarrow> LayoutRow" where
  "exChildRow c p = \<lparr>l_code = c, l_label = None, l_parent = Some (Some p), l_type = None,
       l_order = None, l_formula = None, l_style = None\<rparr>"

definition exParentCfg :: "LayoutRowType \<Rightarrow> settings" where
  "exParentCfg t = exCfg\<lparr>showSubtotals := True, showGrandTotal := False, layoutRows :=
     [\<lparr>l_code = ''REV'', l_label = None, l_parent = None, l_type = Some t,
       l_order = None, l_formula = None, l_style = None\<rparr>,
      exChildRow ''US'' ''REV'', exChildRow ''EU'' ''REV'']\<rparr>"


subsection \<open>Example: declared labels and parents\<close>





subsection \<open>Example: a parent with two children\<close>

definition exNode :: "string \<Rightarrow> string option \<Rightarrow> LayoutRowType \<Rightarrow> string list \<Rightarrow> RowNode" where
  "exNode c p t cs =
     \<lparr>code = c, label = c, parent = p, rtype = t, orderIndex = 0, order = None,
      formula = None, rowStyle = None, children = cs, depth = 0, rowLevel = None,
      groupKey = None, isTotal = False\<rparr>"

definition exCol :: "string \<Rightarrow> BucketedColumnKey" where
  "exCol k = \<lparr>bucket = ''values'', cmeasure = None, key = k, levels = [],
     columnLevels = [], leafLabel = k\<rparr>"

text \<open>A value map with one column \<open>k\<close>, from the cells of its rows.\<close>

definition exVals :: "(string \<times> cell) list \<Rightarrow> cell map2" where
  "exVals xs = foldl (\<lambda>m cv. setComputed m (fst cv) ''k'' (snd cv)) Map.empty xs"

definition exFamily :: "RowNode list" where
  "exFamily = [exNode ''P'' None TData [''C1'', ''C2''],
               exNode ''C1'' (Some ''P'') TData [],
               exNode ''C2'' (Some ''P'') TData []]"

definition exFamilyVals :: "cell map2" where
  "exFamilyVals = exVals [(''P'', None), (''C1'', Some (Fin 5)), (''C2'', Some (Fin 3))]"


subsection \<open>Example: a parent, two children and a grandchild\<close>

definition exTree :: "(string, RowNode) jsmap" where
  "exTree = map (\<lambda>r. (code r, r))
     [exNode ''P'' None TData [''C1'', ''C2''],
      exNode ''C1'' (Some ''P'') TData [''G''],
      exNode ''G'' (Some ''C1'') TData [],
      exNode ''C2'' (Some ''P'') TData []]"

definition exTreeVals :: "cell map2" where
  "exTreeVals = exVals [(''P'', None), (''C1'', Some (Fin 5)), (''G'', Some (Fin 7)),
                        (''C2'', Some (Fin 3))]"


subsection \<open>Example: a calc row over the end-to-end case\<close>

text \<open>The layout declares one calc row K with a formula; blank-as-zero and the grand total
  are off. The environment \<open>exEnv\<close> holds 100 for US in the column of Sales under 2023.\<close>

definition exCalcRow :: "string \<Rightarrow> string \<Rightarrow> LayoutRow" where
  "exCalcRow c f = \<lparr>l_code = c, l_label = None, l_parent = None, l_type = Some TCalc,
       l_order = None, l_formula = Some f, l_style = None\<rparr>"

definition exValueCfg :: "string \<Rightarrow> settings" where
  "exValueCfg f = exCfg\<lparr>blankAsZero := False, showGrandTotal := False,
                        layoutRows := [exCalcRow ''K'' f]\<rparr>"

definition exEnv :: env where
  "exEnv = \<lparr>envB = stdB, envBlankAsZero = False, envRows = [],
            envValues = setComputed Map.empty ''US'' ''2023||values||Sales'' (Some (Fin 100))\<rparr>"




section \<open>Notions used in the statements\<close>

text \<open>The value of a cell as the code reads it: \<open>m.get(code)?.get(colKey) ?? null\<close>.\<close>

definition cellOf :: "cell map2 \<Rightarrow> string \<Rightarrow> string \<Rightarrow> cell" where
  "cellOf vm c k = (case lookup2 vm c k of Some v \<Rightarrow> v | None \<Rightarrow> None)"

text \<open>The values that the rows \<open>cs\<close> have in column \<open>k\<close>, leaving out the rows without
  one, and their sum as a total: \<open>null\<close> (or 0 under blank-as-zero) when there is none.\<close>

definition presentVals :: "cell map2 \<Rightarrow> string \<Rightarrow> string list \<Rightarrow> jsnum list" where
  "presentVals vm k cs = List.map_filter (\<lambda>c. cellOf vm c k) cs"

definition sumOfPresent :: "bool \<Rightarrow> cell map2 \<Rightarrow> string \<Rightarrow> string list \<Rightarrow> cell" where
  "sumOfPresent baz vm k cs =
     (let vs = presentVals vm k cs in
      if vs = [] then (if baz then Some (Fin 0) else None) else Some (jsum vs))"

text \<open>A value map keeps the entries of another.\<close>

definition grows :: "cell map2 \<Rightarrow> cell map2 \<Rightarrow> bool" where
  "grows vm vm' = (\<forall>c k. lookup2 vm c k \<noteq> None \<longrightarrow> lookup2 vm' c k \<noteq> None)"

text \<open>Every row of a list has an entry in every column of a list.\<close>

definition covers :: "cell map2 \<Rightarrow> RowNode list \<Rightarrow> BucketedColumnKey list \<Rightarrow> bool" where
  "covers vm rows cols =
     (\<forall>r \<in> set rows. \<forall>col \<in> set cols. lookup2 vm (code r) (key col) \<noteq> None)"

subsection \<open>Well-formed row maps\<close>

text \<open>The keys of a row map are distinct and not empty, and every row is stored under
  its code.\<close>

definition wfRows :: "(string, RowNode) jsmap \<Rightarrow> bool" where
  "wfRows rb = (distinct (map fst rb) \<and> (\<forall>kr \<in> set rb. code (snd kr) = fst kr \<and> fst kr \<noteq> []))"

text \<open>Two row maps have the same keys in the same order, and rows that agree under a
  projection \<open>f\<close>.\<close>

definition agree :: "(RowNode \<Rightarrow> 'a) \<Rightarrow> (string, RowNode) jsmap \<Rightarrow> (string, RowNode) jsmap \<Rightarrow> bool" where
  "agree f rb rb' =
     (map fst rb' = map fst rb \<and> map (\<lambda>kr. f (snd kr)) rb' = map (\<lambda>kr. f (snd kr)) rb)"

definition butDepth :: "RowNode \<Rightarrow> RowNode" where
  "butDepth r = r\<lparr>depth := 0\<rparr>"

text \<open>Every child listed by a row is a row whose parent is that row.\<close>

definition childrenOK :: "(string, RowNode) jsmap \<Rightarrow> bool" where
  "childrenOK rb =
     (\<forall>kr \<in> set rb. \<forall>c \<in> set (children (snd kr)).
        \<exists>rc. map_of rb c = Some rc \<and> parent rc = Some (fst kr))"

text \<open>\<open>chain rb c d\<close>: following the parents from the row \<open>c\<close> reaches a root after
  \<open>d\<close> steps.\<close>

inductive chain :: "(string, RowNode) jsmap \<Rightarrow> string \<Rightarrow> nat \<Rightarrow> bool" for rb where
  chain_root: "map_of rb c = Some r \<Longrightarrow> isRoot rb r \<Longrightarrow> chain rb c 0"
| chain_step: "map_of rb c = Some r \<Longrightarrow> \<not> isRoot rb r \<Longrightarrow> parent r = Some p
     \<Longrightarrow> chain rb p d \<Longrightarrow> chain rb c (Suc d)"

definition codeParent :: "RowNode \<Rightarrow> string \<times> string option" where
  "codeParent r = (code r, parent r)"

definition noKids :: "(string, RowNode) jsmap \<Rightarrow> bool" where
  "noKids rb = (\<forall>kr \<in> set rb. children (snd kr) = [])"

text \<open>What holds of every hierarchy that \<open>buildHierarchy\<close> returns: the row map is well
  formed, the children lists follow the parents, the roots have no parent among the rows,
  \<open>flatRows\<close> holds rows of the map, the column keys are distinct, and the value map has an
  entry for every row and column.\<close>

definition wfHierarchy :: "hierarchy \<Rightarrow> bool" where
  "wfHierarchy h =
     (wfRows (hRowByCode h) \<and> childrenOK (hRowByCode h)
      \<and> (\<forall>x \<in> set (hRoots h). chain (hRowByCode h) x 0)
      \<and> set (hFlatRows h) \<subseteq> snd ` set (hRowByCode h)
      \<and> distinct (map key (hColumns h))
      \<and> covers (hValues h) (map snd (hRowByCode h)) (hColumns h))"

text \<open>The columns of a builder state and their index \<open>columnsByKey\<close> go together.\<close>

definition colInv :: "build_state \<Rightarrow> bool" where
  "colInv st =
     (distinct (map key (columns st))
      \<and> (\<forall>k. (columnsByKey st k = None) = (k \<notin> key ` set (columns st))))"

text \<open>An internal row, as the auto-aggregation takes it: it has children and is neither
  blank nor calc.\<close>

definition internalRow :: "RowNode \<Rightarrow> bool" where
  "internalRow r = (rtype r = TData \<and> children r \<noteq> [])"


text \<open>The loop over the children of a row in \<open>visitWithSubtotals\<close>.\<close>

definition visitChildrenWithSubtotals ::
  "nat \<Rightarrow> settings \<Rightarrow> BucketedColumnKey list \<Rightarrow> (string, RowNode) jsmap \<Rightarrow> string list
     \<Rightarrow> sub_state \<Rightarrow> sub_state option" where
  "visitChildrenWithSubtotals n cfg cols rb cs st =
     foldl (\<lambda>acc ch. case acc of None \<Rightarrow> None
                       | Some s \<Rightarrow> visitWithSubtotals n cfg cols rb ch s) (Some st) cs"










section \<open>The overflow bound\<close>

lemma pow_split: "(2::rat) ^ 1024 = 2 ^ 970 * 2 ^ 54"
  by (simp only: power_add[symmetric] numeral_plus_numeral semiring_norm)

lemma pow_double: "(2::rat) ^ 1024 = 2 ^ 1023 + 2 ^ 1023"
proof -
  have "(2::rat) ^ Suc 1023 = 2 ^ 1023 + 2 ^ 1023" by (simp only: power_Suc mult_2)
  moreover have "Suc 1023 = 1024" by (simp only: Suc_numeral semiring_norm)
  ultimately show ?thesis by (simp only:)
qed

lemma bound_large: "2 ^ 53 < overflowBound"
proof -
  have a: "(1::rat) \<le> 2 ^ 970" by (rule one_le_power) simp
  have b: "(2::rat) ^ 53 < 2 ^ 54 - 1" "(0::rat) \<le> 2 ^ 54 - 1" by simp_all
  have "1 * ((2::rat) ^ 54 - 1) \<le> 2 ^ 970 * (2 ^ 54 - 1)"
    using a b(2) by (rule mult_right_mono)
  then have "(2::rat) ^ 53 < 2 ^ 970 * (2 ^ 54 - 1)" using b(1) by (simp only: mult_1)
  then show ?thesis unfolding overflowBound_def pow_split
    by (simp only: right_diff_distrib mult_1_right)
qed

lemma bound_double: "overflowBound \<le> exHuge + exHuge"
proof -
  have "(0::rat) \<le> 2 ^ 970" by (rule zero_le_power) simp
  then show ?thesis unfolding overflowBound_def exHuge_def pow_double by linarith
qed

lemma fin_within: "\<bar>r\<bar> < overflowBound \<Longrightarrow> fin r = Fin r"
  by (simp add: fin_def abs_less_iff)

text \<open>The numbers below \<open>2^53\<close> in magnitude are within the bound: a fast test for the
  evaluation of examples.\<close>

lemma fin_code [code]:
  "fin r = (if - 9007199254740992 < r \<and> r < 9007199254740992 then Fin r
            else if overflowBound \<le> r then PInf
            else if r \<le> - overflowBound then NInf else Fin r)"
proof (cases "- 9007199254740992 < r \<and> r < 9007199254740992")
  case True
  have "(9007199254740992::rat) = 2 ^ 53" by simp
  then have "\<bar>r\<bar> < overflowBound" using True bound_large by linarith
  then show ?thesis using True fin_within by simp
next
  case False
  show ?thesis unfolding fin_def if_not_P[OF False] ..
qed

section \<open>Cell aggregation\<close>

lemma lookup2_ensureRow [simp]: "lookup2 (ensureRow m c) c' k = lookup2 m c' k"
  by (simp add: lookup2_def ensureRow_def)

lemma ensureRow_defined: "ensureRow m c c \<noteq> None"
  by (simp add: ensureRow_def)

lemma lookup2_put2: "m c \<noteq> None \<Longrightarrow>
  lookup2 (put2 m c k v) c' k' = (if c' = c \<and> k' = k then Some v else lookup2 m c' k')"
  by (auto simp: lookup2_def put2_def split: option.splits)

lemma lookup2_setComputed:
  "lookup2 (setComputed m c k v) c' k' = (if c' = c \<and> k' = k then Some v else lookup2 m c' k')"
  by (simp add: setComputed_def lookup2_put2 ensureRow_defined)

lemma lookup2_addCell:
  "lookup2 (valuesMap (addCell B c k r st)) c' k' =
     (if c' = c \<and> k' = k then cellStep B (lookup2 (valuesMap st) c k) r
      else lookup2 (valuesMap st) c' k')"
  by (auto simp: addCell_def cellStep_def Let_def has2_def lookup2_put2 ensureRow_defined
           split: option.splits)

lemma lookup2_addCells:
  "lookup2 (valuesMap (addCells B ts st)) c k =
     foldl (cellStep B) (lookup2 (valuesMap st) c k) (contributions ts c k)"
proof (induction ts arbitrary: st)
  case Nil
  show ?case by (simp add: addCells_def contributions_def)
next
  case (Cons t ts)
  obtain c' k' r where t: "t = (c', k', r)" by (cases t)
  have "addCells B (t # ts) st = addCells B ts (addCell B c' k' r st)"
    by (simp add: addCells_def t)
  then show ?case using Cons.IH[of "addCell B c' k' r st"]
    by (simp add: t lookup2_addCell contributions_def)
qed

lemma numericOnes_Cons:
  "numericOnes B (r # rs) =
     (case toNumber B r of Fin q \<Rightarrow> q # numericOnes B rs | _ \<Rightarrow> numericOnes B rs)"
  by (simp add: numericOnes_def List.map_filter_simps split: jsnum.splits)

lemma cellStep_number:
  "cellStep B (Some (Some a)) r =
     (case toNumber B r of Fin q \<Rightarrow> Some (Some (accumulate a q)) | _ \<Rightarrow> Some (Some a))"
  by (cases a) (simp_all add: cellStep_def accumulate_def Let_def split: jsnum.splits)

lemma cellStep_null:
  "cellStep B (Some None) r =
     (case toNumber B r of Fin q \<Rightarrow> Some (Some (Fin q)) | _ \<Rightarrow> Some None)"
  by (simp add: cellStep_def Let_def split: jsnum.splits)

lemma cellStep_undefined:
  "cellStep B None r =
     (case toNumber B r of Fin q \<Rightarrow> Some (Some (Fin q)) | _ \<Rightarrow> Some None)"
  by (simp add: cellStep_def Let_def split: jsnum.splits)

lemma foldl_cellStep_number:
  "foldl (cellStep B) (Some (Some a)) rs = Some (Some (foldl accumulate a (numericOnes B rs)))"
proof (induction rs arbitrary: a)
  case Nil show ?case by (simp add: numericOnes_def List.map_filter_simps)
next
  case (Cons r rs)
  show ?case
    by (cases "toNumber B r") (simp_all add: cellStep_number numericOnes_Cons Cons.IH)
qed

lemma foldl_cellStep_null:
  "foldl (cellStep B) (Some None) rs =
     (if numericOnes B rs = [] then Some None else Some (Some (runningSum (numericOnes B rs))))"
proof (induction rs)
  case Nil show ?case by (simp add: numericOnes_def List.map_filter_simps)
next
  case (Cons r rs)
  show ?case
    by (cases "toNumber B r")
       (simp_all add: cellStep_null numericOnes_Cons Cons.IH foldl_cellStep_number runningSum_def)
qed

lemma accumulate_within:
  assumes "\<And>n. n \<le> length qs \<Longrightarrow> \<bar>p + sum_list (take n qs)\<bar> < overflowBound"
  shows "foldl accumulate (Fin p) qs = Fin (p + sum_list qs)"
  using assms
proof (induction qs arbitrary: p)
  case Nil
  show ?case by simp
next
  case (Cons q qs)
  have "\<bar>p + q\<bar> < overflowBound" using Cons.prems[of 1] by simp
  then have a: "accumulate (Fin p) q = Fin (p + q)" by (simp add: accumulate_def fin_within)
  have "foldl accumulate (Fin (p + q)) qs = Fin (p + q + sum_list qs)"
  proof (rule Cons.IH)
    fix n assume "n \<le> length qs"
    then show "\<bar>p + q + sum_list (take n qs)\<bar> < overflowBound"
      using Cons.prems[of "Suc n"] by (simp add: add.assoc)
  qed
  then show ?case using a by (simp add: add.assoc)
qed

lemma runningSum_within:
  assumes "qs \<noteq> []" "noOverflow qs"
  shows "runningSum qs = Fin (sum_list qs)"
proof -
  obtain q qs' where q: "qs = q # qs'" using assms(1) by (cases qs) auto
  have "\<forall>n \<in> set [0 ..< Suc (length qs)]. \<bar>sum_list (take n qs)\<bar> < overflowBound"
    using assms(2) unfolding noOverflow_def list_all_iff .
  then have b: "\<And>n. n \<le> length qs \<Longrightarrow> \<bar>sum_list (take n qs)\<bar> < overflowBound"
    by (simp del: upt_Suc)
  have "foldl accumulate (Fin q) qs' = Fin (q + sum_list qs')"
  proof (rule accumulate_within)
    fix n assume "n \<le> length qs'"
    then show "\<bar>q + sum_list (take n qs')\<bar> < overflowBound"
      using b[of "Suc n"] by (simp add: q)
  qed
  then show ?thesis by (simp add: runningSum_def q)
qed

lemma lookup2_addCells_empty:
  "lookup2 (valuesMap (addCells B ts emptyCells)) rc ck =
     (let rs = contributions ts rc ck; qs = numericOnes B rs in
      if rs = [] then None
      else if qs = [] then Some None
      else Some (Some (runningSum qs)))"
proof -
  have start: "lookup2 (valuesMap emptyCells) rc ck = None"
    by (simp add: emptyCells_def lookup2_def)
  show ?thesis
  proof (cases "contributions ts rc ck")
    case Nil
    then show ?thesis by (simp add: lookup2_addCells start)
  next
    case (Cons r rs)
    show ?thesis
      by (cases "toNumber B r")
         (simp_all add: lookup2_addCells start Cons cellStep_undefined numericOnes_Cons
            foldl_cellStep_number foldl_cellStep_null Let_def runningSum_def)
  qed
qed

text \<open>
  Claim C2 (amended). Starting from the empty maps, after any sequence of \<open>addCell\<close>
  calls the numeric map holds, at every \<open>(rowCode, colKey)\<close>: nothing when no contribution
  was mapped to the cell; \<open>null\<close> when contributions were mapped to it and none was
  numeric; and otherwise the running sum of the numeric contributions mapped to the cell,
  whatever non-numeric contributions came before, between or after them. The running sum
  is the sum of all of them when no partial sum overflows; a running sum that has
  overflowed to an infinity is replaced by the next numeric contribution.
\<close>

theorem addCell_running_sum:
  "lookup2 (valuesMap (addCells B ts emptyCells)) rc ck =
     (let rs = contributions ts rc ck; qs = numericOnes B rs in
      if rs = [] then None
      else if qs = [] then Some None
      else Some (Some (runningSum qs)))
   \<and> (numericOnes B (contributions ts rc ck) \<noteq> []
          \<and> noOverflow (numericOnes B (contributions ts rc ck)) \<longrightarrow>
        lookup2 (valuesMap (addCells B ts emptyCells)) rc ck
          = Some (Some (Fin (sum_list (numericOnes B (contributions ts rc ck))))))"
proof -
  note a = lookup2_addCells_empty[of B ts rc ck]
  have b: "lookup2 (valuesMap (addCells B ts emptyCells)) rc ck
          = Some (Some (Fin (sum_list (numericOnes B (contributions ts rc ck)))))"
    if n: "numericOnes B (contributions ts rc ck) \<noteq> []"
      and o: "noOverflow (numericOnes B (contributions ts rc ck))"
  proof -
    have "contributions ts rc ck \<noteq> []"
      using n by (auto simp: numericOnes_def List.map_filter_simps)
    then show ?thesis using a n runningSum_within[OF n o] by (simp add: Let_def)
  qed
  show ?thesis using a b by blast
qed

lemma ex_no_overflow: "noOverflow [5, 3]"
proof -
  have "(8::rat) < 2 ^ 53" by simp
  then have "(8::rat) < overflowBound" using bound_large by linarith
  then show ?thesis by (simp add: noOverflow_def upt_rec)
qed

text \<open>Contributions of 5 and 3 to one cell, with non-numeric ones around them, give 8.\<close>

theorem addCell_running_sum_witness:
  "lookup2 (valuesMap (addCells stdB
      [(''US'', ''k'', VNum (Fin 5)), (''EU'', ''k'', VNum (Fin 7)), (''US'', ''k'', VStr ''n/a''),
       (''US'', ''k'', VNum (Fin 3)), (''US'', ''k'', VNull)] emptyCells)) ''US'' ''k''
   = Some (Some (Fin 8))"
  using addCell_running_sum[of stdB "[(''US'', ''k'', VNum (Fin 5)), (''EU'', ''k'', VNum (Fin 7)), (''US'', ''k'', VStr ''n/a''),
       (''US'', ''k'', VNum (Fin 3)), (''US'', ''k'', VNull)]" "''US''" "''k''", THEN conjunct2]
    ex_no_overflow
  by (simp add: contributions_def numericOnes_def List.map_filter_simps stdB_def)

text \<open>
  The sum is not what the cell holds once it has overflowed: of the contributions
  \<open>2^1023\<close>, \<open>2^1023\<close> and 5, the first two add up to \<open>Infinity\<close>, which the third
  replaces, and the cell holds 5.
\<close>

theorem addCell_overwrites_after_overflow:
  "lookup2 (valuesMap (addCells stdB
      [(''US'', ''k'', VNum (Fin exHuge)), (''US'', ''k'', VNum (Fin exHuge)),
       (''US'', ''k'', VNum (Fin 5))] emptyCells)) ''US'' ''k''
     = Some (Some (Fin 5))
   \<and> lookup2 (valuesMap (addCells stdB
      [(''US'', ''k'', VNum (Fin exHuge)), (''US'', ''k'', VNum (Fin exHuge))]
       emptyCells)) ''US'' ''k''
     = Some (Some PInf)
   \<and> numericOnes stdB (contributions
      [(''US'', ''k'', VNum (Fin exHuge)), (''US'', ''k'', VNum (Fin exHuge)),
       (''US'', ''k'', VNum (Fin 5))] ''US'' ''k'') = [exHuge, exHuge, 5]"
proof -
  have "fin (exHuge + exHuge) = PInf" using bound_double by (simp add: fin_def)
  then have o: "fin (2 * exHuge) = PInf" by (simp only: mult_2)
  show ?thesis
    by (simp add: lookup2_addCells_empty contributions_def numericOnes_def
          List.map_filter_simps runningSum_def accumulate_def o)
qed


section \<open>Lemmas on the value map\<close>

subsection \<open>Folds that may run out of fuel\<close>

lemma foldl_opt_None [simp]:
  "foldl (\<lambda>acc x. case acc of None \<Rightarrow> None | Some s \<Rightarrow> f x s) None xs = None"
  by (induction xs) simp_all

lemma foldl_opt_invariant:
  assumes "foldl (\<lambda>acc x. case acc of None \<Rightarrow> None | Some s \<Rightarrow> f x s) (Some s0) xs = Some s1"
    and "P s0"
    and "\<And>x s s'. x \<in> set xs \<Longrightarrow> P s \<Longrightarrow> f x s = Some s' \<Longrightarrow> P s'"
  shows "P s1"
  using assms
proof (induction xs arbitrary: s0)
  case Nil
  then show ?case by simp
next
  case (Cons x xs)
  show ?case
  proof (cases "f x s0")
    case None
    with Cons.prems(1) show ?thesis by simp
  next
    case (Some s)
    have "P s" by (rule Cons.prems(3)[of x s0 s]) (simp_all add: Cons.prems(2) Some)
    moreover have "foldl (\<lambda>acc x. case acc of None \<Rightarrow> None | Some s \<Rightarrow> f x s) (Some s) xs = Some s1"
      using Cons.prems(1) Some by simp
    ultimately show ?thesis
    proof (intro Cons.IH[of s])
      fix y t t' assume "y \<in> set xs" "P t" "f y t = Some t'"
      then show "P t'" using Cons.prems(3)[of y t t'] by simp
    qed
  qed
qed

subsection \<open>Value maps only grow\<close>

lemma grows_refl [simp]: "grows vm vm"
  by (simp add: grows_def)

lemma grows_trans: "grows a b \<Longrightarrow> grows b c \<Longrightarrow> grows a c"
  by (simp add: grows_def)

lemma lookup2_put2_any:
  "lookup2 (put2 m c k v) c' k' =
     (if c' = c \<and> k' = k \<and> m c \<noteq> None then Some v else lookup2 m c' k')"
  by (auto simp: lookup2_def put2_def split: option.splits)

lemma grows_put2: "grows m (put2 m c k v)"
  by (simp add: grows_def lookup2_put2_any)

lemma grows_ensureRow: "grows m (ensureRow m c)"
  by (simp add: grows_def)

lemma grows_setComputed: "grows m (setComputed m c k v)"
  by (simp add: grows_def lookup2_setComputed)

lemma grows_foldl:
  assumes "\<And>m x. x \<in> set xs \<Longrightarrow> grows m (f m x)"
  shows "grows m (foldl f m xs)"
  using assms
proof (induction xs arbitrary: m)
  case Nil show ?case by simp
next
  case (Cons x xs)
  have "grows m (f m x)" using Cons.prems by simp
  moreover have "grows (f m x) (foldl f (f m x) xs)" using Cons.IH Cons.prems by simp
  ultimately show ?case using grows_trans by fastforce
qed

lemma covers_grows: "covers vm rows cols \<Longrightarrow> grows vm vm' \<Longrightarrow> covers vm' rows cols"
  by (simp add: covers_def grows_def)

lemma covers_append: "covers vm (xs @ ys) cols = (covers vm xs cols \<and> covers vm ys cols)"
  by (auto simp: covers_def)

subsection \<open>The pre-fill\<close>

lemma prefillRow_fold:
  "m c0 \<noteq> None \<Longrightarrow>
   lookup2 (foldl (\<lambda>m col. if \<not> has2 m c0 (key col) then put2 m c0 (key col) None else m) m cols) c k
     = (if c = c0 \<and> k \<in> key ` set cols \<and> lookup2 m c k = None then Some None else lookup2 m c k)"
proof (induction cols arbitrary: m)
  case Nil show ?case by simp
next
  case (Cons col cols)
  let ?m1 = "if \<not> has2 m c0 (key col) then put2 m c0 (key col) None else m"
  have d: "?m1 c0 \<noteq> None" using Cons.prems by (auto simp: put2_def split: option.splits)
  have l: "lookup2 ?m1 c k = (if c = c0 \<and> k = key col \<and> lookup2 m c k = None then Some None else lookup2 m c k)"
    using Cons.prems by (auto simp: has2_def lookup2_put2_any)
  show ?case using Cons.IH[of ?m1, OF d] Cons.prems
    by (auto simp: l has2_def lookup2_put2_any)
qed

lemma lookup2_prefillRow:
  "lookup2 (prefillRow cols vm r) c k
     = (if c = code r \<and> k \<in> key ` set cols \<and> lookup2 vm c k = None then Some None else lookup2 vm c k)"
proof -
  have "ensureRow vm (code r) (code r) \<noteq> None" by (rule ensureRow_defined)
  from prefillRow_fold[of "ensureRow vm (code r)" "code r" cols c k, OF this]
  show ?thesis by (auto simp: prefillRow_def)
qed

lemma grows_prefillRow: "grows vm (prefillRow cols vm r)"
  by (auto simp: grows_def lookup2_prefillRow)

lemma lookup2_prefill:
  "lookup2 (prefill rb cols vm) c k
     = (if c \<in> code ` snd ` set rb \<and> k \<in> key ` set cols \<and> lookup2 vm c k = None
        then Some None else lookup2 vm c k)"
proof -
  have "lookup2 (foldl (prefillRow cols) vm rs) c k
     = (if c \<in> code ` set rs \<and> k \<in> key ` set cols \<and> lookup2 vm c k = None
        then Some None else lookup2 vm c k)" for rs
  proof (induction rs arbitrary: vm)
    case Nil show ?case by simp
  next
    case (Cons r rs)
    show ?case by (simp add: Cons.IH lookup2_prefillRow)
  qed
  then show ?thesis by (simp add: prefill_def)
qed

lemma covers_prefill: "covers (prefill rb cols vm) (map snd rb) cols"
  by (auto simp: covers_def lookup2_prefill)

subsection \<open>No stage removes an entry\<close>

declare formulaLoop.simps [simp del]

lemma grows_fst_foldl:
  assumes "\<And>s x. x \<in> set xs \<Longrightarrow> grows (fst s) (fst (f s x))"
  shows "grows (fst s) (fst (foldl f s xs))"
  using assms
proof (induction xs arbitrary: s)
  case Nil show ?case by simp
next
  case (Cons x xs)
  have "grows (fst s) (fst (f s x))" using Cons.prems by simp
  moreover have "grows (fst (f s x)) (fst (foldl f (f s x) xs))" using Cons.IH Cons.prems by simp
  ultimately show ?case using grows_trans by fastforce
qed

lemma grows_formulaCell: "grows (fst ps) (fst (formulaCell B baz rb r a ps col))"
  by (cases a) (simp_all add: formulaCell_def Let_def grows_setComputed)

lemma grows_formulaRow: "grows (fst ps) (fst (formulaRow B baz rb cols ps r))"
  unfolding formulaRow_def Let_def by (rule grows_fst_foldl) (rule grows_formulaCell)

lemma grows_formulaPass: "grows vm (fst (formulaPass B baz rb cols vm))"
  using grows_fst_foldl[of "calcRows rb" "formulaRow B baz rb cols" "(vm, False)"]
  by (simp add: formulaPass_def grows_formulaRow)

lemma grows_formulaLoop: "grows vm (formulaLoop B baz rb cols pass vm)"
proof (induction B baz rb cols pass vm rule: formulaLoop.induct)
  case (1 B baz rb cols pass vm)
  show ?case
  proof (cases "pass < 6")
    case False
    then show ?thesis by (subst formulaLoop.simps) simp
  next
    case True
    let ?ps = "formulaPass B baz rb cols vm"
    show ?thesis
    proof (cases "snd ?ps")
      case False
      then show ?thesis using True grows_formulaPass[of vm B baz rb cols]
        by (subst formulaLoop.simps) (simp add: Let_def)
    next
      case c: True
      have "grows (fst ?ps) (formulaLoop B baz rb cols (pass + 1) (fst ?ps))"
        using "1.IH"[OF True refl] c by simp
      then have "grows vm (formulaLoop B baz rb cols (pass + 1) (fst ?ps))"
        using grows_formulaPass[of vm B baz rb cols] grows_trans by blast
      then show ?thesis using True c
        by (subst formulaLoop.simps) (simp add: Let_def)
    qed
  qed
qed

lemma grows_evalFormulas: "grows vm (evalFormulas B baz rb cols vm)"
  unfolding evalFormulas_def by (rule grows_formulaLoop)

lemma grows_aggregateCell: "grows vm (aggregateCell baz r vm col)"
  by (simp add: aggregateCell_def grows_setComputed split: option.splits)

lemma grows_aggregateRow: "grows vm (aggregateRow baz cols vm r)"
  by (simp add: aggregateRow_def grows_foldl grows_aggregateCell)

lemma grows_autoAggregate: "grows vm (autoAggregate baz flatRows cols vm)"
  by (simp add: autoAggregate_def grows_foldl grows_aggregateRow)

lemma grows_computedValues: "grows (hValues h) (computedValues B cfg h)"
  using grows_evalFormulas grows_autoAggregate grows_trans
  by (fastforce simp: computedValues_def Let_def)

subsection \<open>Totals rows have an entry in every column\<close>

lemma total_cells_fold:
  "m c0 \<noteq> None \<Longrightarrow>
   lookup2 (foldl (\<lambda>m col. put2 m c0 (key col) (g m col)) m cols) c k \<noteq> None
     \<longleftrightarrow> (c = c0 \<and> k \<in> key ` set cols) \<or> lookup2 m c k \<noteq> None"
proof (induction cols arbitrary: m)
  case Nil show ?case by simp
next
  case (Cons col cols)
  let ?m1 = "put2 m c0 (key col) (g m col)"
  have d: "?m1 c0 \<noteq> None" using Cons.prems by (auto simp: put2_def split: option.splits)
  show ?case using Cons.IH[of ?m1, OF d] Cons.prems
    by (auto simp: lookup2_put2_any)
qed

lemma subtotalCells_defined:
  "lookup2 (subtotalCells baz r cols vm) c k \<noteq> None
     \<longleftrightarrow> (c = subtotalCode (code r) \<and> k \<in> key ` set cols) \<or> lookup2 vm c k \<noteq> None"
  unfolding subtotalCells_def
  using total_cells_fold[of "ensureRow vm (subtotalCode (code r))" "subtotalCode (code r)"
      "\<lambda>m col. totalOf baz (sumCells m (key col) (children r))" cols c k]
  by (simp add: ensureRow_defined)

lemma grandTotalCells_defined:
  "lookup2 (grandTotalCells baz flatRows cols vm) c k \<noteq> None
     \<longleftrightarrow> (c = grandTotalCode \<and> k \<in> key ` set cols) \<or> lookup2 vm c k \<noteq> None"
  unfolding grandTotalCells_def
  using total_cells_fold[of "ensureRow vm grandTotalCode" grandTotalCode
      "\<lambda>m col. totalOf baz (sumCells m (key col) (map code (sumRows flatRows)))" cols c k]
  by (simp add: ensureRow_defined)

lemma grows_subtotalCells: "grows vm (subtotalCells baz r cols vm)"
  using subtotalCells_defined by (simp add: grows_def)

lemma grows_grandTotalCells: "grows vm (grandTotalCells baz flatRows cols vm)"
  using grandTotalCells_defined by (simp add: grows_def)

lemma rowsOfCodes_subset: "set (rowsOfCodes rb cs) \<subseteq> set (map snd rb)"
  by (force simp: rowsOfCodes_def List.map_filter_def dest: map_of_SomeD)

lemma covers_mono: "covers vm rows cols \<Longrightarrow> set rows' \<subseteq> set rows \<Longrightarrow> covers vm rows' cols"
  by (auto simp: covers_def)


text \<open>The invariant of the subtotal traversal: the map has grown from the one before the
  traversal, and covers the rows pushed so far.\<close>

lemma pushSubtotalFor_covers:
  assumes "grows vm0 (snd st)" "covers (snd st) (fst st) cols"
  shows "grows vm0 (snd (pushSubtotalFor cfg cols r st))
       \<and> covers (snd (pushSubtotalFor cfg cols r st)) (fst (pushSubtotalFor cfg cols r st)) cols"
proof -
  let ?vm = "subtotalCells (blankAsZero cfg) r cols (snd st)"
  have g: "grows (snd st) ?vm" by (rule grows_subtotalCells)
  have "covers ?vm (fst st) cols" using assms(2) g by (rule covers_grows)
  moreover have "covers ?vm [subtotalRow cfg r] cols"
    by (simp add: covers_def subtotalCells_defined subtotalRow_def del: not_None_eq)
  ultimately have "covers ?vm (fst st @ [subtotalRow cfg r]) cols"
    by (simp add: covers_append)
  moreover have "grows vm0 ?vm" using assms(1) g by (rule grows_trans)
  ultimately show ?thesis using assms by (simp add: pushSubtotalFor_def)
qed

lemma visitWithSubtotals_covers:
  assumes "visitWithSubtotals n cfg cols rb c st = Some st'"
    and "covers vm0 (map snd rb) cols"
    and "grows vm0 (snd st)" "covers (snd st) (fst st) cols"
  shows "grows vm0 (snd st') \<and> covers (snd st') (fst st') cols"
  using assms
proof (induction n arbitrary: c st st')
  case 0
  then show ?case by simp
next
  case (Suc n)
  show ?case
  proof (cases "map_of rb c")
    case None
    then show ?thesis using Suc.prems by simp
  next
    case (Some r)
    let ?f = "\<lambda>ch s. visitWithSubtotals n cfg cols rb ch s"
    let ?P = "\<lambda>s. grows vm0 (snd s) \<and> covers (snd s) (fst s) cols"
    obtain s1 where s1: "foldl (\<lambda>acc ch. case acc of None \<Rightarrow> None | Some s \<Rightarrow> ?f ch s)
                           (Some (fst st @ [r], snd st)) (children r) = Some s1"
      and st': "st' = pushSubtotalFor cfg cols r s1"
      using Suc.prems(1) Some by (auto split: option.splits)
    have rin: "r \<in> set (map snd rb)" using Some by (force dest: map_of_SomeD)
    have "covers (snd st) (map snd rb) cols"
      using Suc.prems(2,3) by (rule covers_grows)
    then have "covers (snd st) [r] cols"
      by (rule covers_mono) (use rin in simp)
    then have P0: "?P (fst st @ [r], snd st)"
      using Suc.prems(3,4) by (simp add: covers_append)
    have "?P s1"
    proof (rule foldl_opt_invariant[where P = ?P, OF s1 P0])
      fix ch s s' assume "ch \<in> set (children r)" "?P s" "?f ch s = Some s'"
      then show "?P s'" using Suc.IH[of ch s s'] Suc.prems(2) by simp
    qed
    then show ?thesis using pushSubtotalFor_covers[of vm0 s1 cols cfg r] st' by simp
  qed
qed

lemma injectSubtotals_covers:
  assumes "injectSubtotals n cfg cols rb roots vm = Some st'"
    and "covers vm (map snd rb) cols"
  shows "grows vm (snd st') \<and> covers (snd st') (fst st') cols"
proof -
  let ?P = "\<lambda>s. grows vm (snd s) \<and> covers (snd s) (fst s) cols"
  have s1: "foldl (\<lambda>acc c. case acc of None \<Rightarrow> None
                             | Some s \<Rightarrow> visitWithSubtotals n cfg cols rb c s)
              (Some ([], vm)) roots = Some st'"
    using assms(1) by (simp add: injectSubtotals_def)
  have P0: "?P ([], vm)" by (simp add: covers_def)
  show ?thesis
  proof (rule foldl_opt_invariant[where P = ?P, OF s1 P0])
    fix c s s' assume "c \<in> set roots" "?P s" "visitWithSubtotals n cfg cols rb c s = Some s'"
    then show "?P s'" using visitWithSubtotals_covers[of n cfg cols rb c s s' vm] assms(2) by simp
  qed
qed

lemma injectGrandTotal_covers:
  assumes "covers (snd st) (fst st) cols"
  shows "grows (snd st) (snd (injectGrandTotal cfg cols st))
       \<and> covers (snd (injectGrandTotal cfg cols st)) (fst (injectGrandTotal cfg cols st)) cols"
proof -
  let ?vm = "grandTotalCells (blankAsZero cfg) (fst st) cols (snd st)"
  have g: "grows (snd st) ?vm" by (rule grows_grandTotalCells)
  have "covers ?vm (fst st) cols" using assms g by (rule covers_grows)
  moreover have "covers ?vm [grandTotalRow cfg] cols"
    by (simp add: covers_def grandTotalCells_defined grandTotalRow_def del: not_None_eq)
  ultimately show ?thesis using g by (simp add: injectGrandTotal_def covers_append)
qed

section \<open>The row hierarchy is a forest\<close>

subsection \<open>Row maps that agree\<close>

lemma agree_refl [simp]: "agree f rb rb"
  by (simp add: agree_def)

lemma agree_trans: "agree f a b \<Longrightarrow> agree f b c \<Longrightarrow> agree f a c"
  by (simp add: agree_def)

lemma agree_sym: "agree f a b \<Longrightarrow> agree f b a"
  by (simp add: agree_def)

lemma agree_length: "agree f a b \<Longrightarrow> length b = length a"
  unfolding agree_def by (metis length_map)

lemma update_agree_aux:
  "map_of rb k = Some r \<Longrightarrow> f v = f r \<Longrightarrow>
     map fst (AList.update k v rb) = map fst rb
     \<and> map (\<lambda>kr. f (snd kr)) (AList.update k v rb) = map (\<lambda>kr. f (snd kr)) rb"
  by (induction rb) (auto split: if_splits)

lemma agree_update:
  "agree f rb rb' \<Longrightarrow> map_of rb' k = Some r \<Longrightarrow> f v = f r \<Longrightarrow> agree f rb (AList.update k v rb')"
  using update_agree_aux[of rb' k r f v] by (simp add: agree_def)

lemma agree_map_of:
  "map fst rb' = map fst rb \<Longrightarrow> map (\<lambda>kr. f (snd kr)) rb' = map (\<lambda>kr. f (snd kr)) rb \<Longrightarrow>
   map_of rb k = Some r \<Longrightarrow> \<exists>r'. map_of rb' k = Some r' \<and> f r' = f r"
proof (induction rb arbitrary: rb')
  case Nil
  then show ?case by simp
next
  case (Cons a rb)
  then obtain a' rb2 where rb': "rb' = a' # rb2" by (cases rb') auto
  show ?case using Cons.prems Cons.IH[of rb2] by (cases a; cases a') (auto simp: rb' split: if_splits)
qed

lemma agree_lookup:
  "agree f rb rb' \<Longrightarrow> map_of rb k = Some r \<Longrightarrow> \<exists>r'. map_of rb' k = Some r' \<and> f r' = f r"
  using agree_map_of[of rb' rb f k r] by (simp add: agree_def)

lemma agree_lookup_None:
  "agree f rb rb' \<Longrightarrow> map_of rb k = None \<longleftrightarrow> map_of rb' k = None"
  unfolding agree_def by (metis map_of_eq_None_iff set_map)

lemma butDepth_eq:
  "butDepth r' = butDepth r \<Longrightarrow>
     code r' = code r \<and> parent r' = parent r \<and> children r' = children r \<and> rtype r' = rtype r
     \<and> rowLevel r' = rowLevel r \<and> isTotal r' = isTotal r \<and> formula r' = formula r"
  unfolding butDepth_def by (cases r, cases r') simp

lemma butDepth_update [simp]: "butDepth (r\<lparr>depth := d\<rparr>) = butDepth r"
  by (simp add: butDepth_def)

subsection \<open>The length of a chain of parents\<close>

inductive_cases chain_zeroE: "chain rb c 0"

inductive_cases chain_SucE: "chain rb c (Suc d)"

lemma chain_fun: "chain rb c d \<Longrightarrow> chain rb c d' \<Longrightarrow> d = d'"
proof (induction arbitrary: d' rule: chain.induct)
  case (chain_root c r)
  show ?case
  proof (cases d')
    case 0
    then show ?thesis by simp
  next
    case (Suc e)
    then have "chain rb c (Suc e)" using chain_root.prems by simp
    then obtain r' where "map_of rb c = Some r'" "\<not> isRoot rb r'" by (rule chain_SucE)
    then show ?thesis using chain_root.hyps by simp
  qed
next
  case (chain_step c r p d)
  show ?case
  proof (cases d')
    case 0
    then have "chain rb c 0" using chain_step.prems by simp
    then obtain r' where "map_of rb c = Some r'" "isRoot rb r'" by (rule chain_zeroE)
    then show ?thesis using chain_step.hyps by simp
  next
    case (Suc e)
    then have "chain rb c (Suc e)" using chain_step.prems by simp
    then obtain r' p' where "map_of rb c = Some r'" "parent r' = Some p'" "chain rb p' e"
      by (rule chain_SucE)
    then have "chain rb p e" using chain_step.hyps by simp
    then show ?thesis using chain_step.IH Suc by simp
  qed
qed

lemma chain_key: "chain rb c d \<Longrightarrow> c \<in> fst ` set rb"
proof (induction rule: chain.induct)
  case (chain_root c r)
  then have "(c, r) \<in> set rb" by (simp add: map_of_SomeD)
  then show ?case by force
next
  case (chain_step c r p d)
  then have "(c, r) \<in> set rb" by (simp add: map_of_SomeD)
  then show ?case by force
qed

lemma anc_root:
  assumes c0: "chain rb c 0"
  shows "\<exists>S. S \<subseteq> fst ` set rb \<and> card S = Suc 0 \<and> (\<forall>a \<in> S. \<exists>i \<le> 0. chain rb a i)"
proof -
  have "{c} \<subseteq> fst ` set rb" using chain_key[OF c0] by simp
  moreover have "card {c} = Suc 0" by simp
  moreover have "\<forall>a \<in> {c}. \<exists>i \<le> 0. chain rb a i" using c0 by simp
  ultimately show ?thesis by (intro exI[of _ "{c}"]) simp
qed

lemma anc_step:
  assumes cc: "chain rb c (Suc d)"
    and S: "S \<subseteq> fst ` set rb" "card S = Suc d" "\<forall>a \<in> S. \<exists>i \<le> d. chain rb a i"
  shows "\<exists>S. S \<subseteq> fst ` set rb \<and> card S = Suc (Suc d) \<and> (\<forall>a \<in> S. \<exists>i \<le> Suc d. chain rb a i)"
proof -
  have "c \<notin> S"
  proof
    assume "c \<in> S"
    then obtain i where i: "i \<le> d" "chain rb c i" using S(3) by blast
    have "Suc d = i" using cc i(2) by (rule chain_fun)
    then show False using i(1) by simp
  qed
  moreover have "finite S" using S(1) finite_subset by fastforce
  ultimately have 1: "card (insert c S) = Suc (Suc d)" using S(2) by simp
  have 2: "insert c S \<subseteq> fst ` set rb" using S(1) chain_key[OF cc] by simp
  have 3: "\<forall>a \<in> insert c S. \<exists>i \<le> Suc d. chain rb a i"
  proof
    fix a assume "a \<in> insert c S"
    then consider "a = c" | "a \<in> S" by blast
    then show "\<exists>i \<le> Suc d. chain rb a i"
    proof cases
      case 1
      then show ?thesis using cc by blast
    next
      case 2
      then obtain i where "i \<le> d" "chain rb a i" using S(3) by blast
      then show ?thesis by (intro exI[of _ i]) simp
    qed
  qed
  show ?thesis using 1 2 3 by (intro exI[of _ "insert c S"]) simp
qed

lemma chain_ancestors:
  "chain rb c d \<Longrightarrow>
     \<exists>S. S \<subseteq> fst ` set rb \<and> card S = Suc d \<and> (\<forall>a \<in> S. \<exists>i \<le> d. chain rb a i)"
proof (induction rule: chain.induct)
  case (chain_root c r)
  have "chain rb c 0" using chain_root.hyps by (rule chain.chain_root)
  then show ?case by (rule anc_root)
next
  case (chain_step c r p d)
  have cc: "chain rb c (Suc d)"
    using chain_step.hyps by (rule chain.chain_step)
  from chain_step.IH obtain S where
    "S \<subseteq> fst ` set rb" "card S = Suc d" "\<forall>a \<in> S. \<exists>i \<le> d. chain rb a i"
    by (elim exE conjE)
  with cc show ?case by (rule anc_step)
qed

lemma chain_bound: "chain rb c d \<Longrightarrow> d < length rb"
proof -
  assume a: "chain rb c d"
  obtain S where S: "S \<subseteq> fst ` set rb" "card S = Suc d"
    using chain_ancestors[OF a] by (elim exE conjE)
  have "card S \<le> card (fst ` set rb)" using S(1) by (simp add: card_mono)
  also have "\<dots> \<le> card (set rb)" by (simp add: card_image_le)
  also have "\<dots> \<le> length rb" by (rule card_length)
  finally show ?thesis using S(2) by simp
qed

lemma chain_child:
  assumes "wfRows rb" "childrenOK rb" "chain rb c d" "map_of rb c = Some r" "ch \<in> set (children r)"
  shows "chain rb ch (Suc d)"
proof -
  have cr: "(c, r) \<in> set rb" using assms(4) by (rule map_of_SomeD)
  have "\<forall>c' \<in> set (children (snd (c, r))). \<exists>rc. map_of rb c' = Some rc \<and> parent rc = Some (fst (c, r))"
    using assms(2) cr unfolding childrenOK_def by (rule bspec)
  then obtain rc where rc: "map_of rb ch = Some rc" "parent rc = Some c"
    using assms(5) by auto
  have "code (snd (c, r)) = fst (c, r) \<and> fst (c, r) \<noteq> []"
    using assms(1) cr unfolding wfRows_def by blast
  then have "c \<noteq> []" by simp
  then have "\<not> isRoot rb rc" using rc(2) assms(4) by (simp add: isRoot_def)
  then show ?thesis using chain.chain_step[OF rc(1) _ rc(2) assms(3)] by simp
qed

lemma chain_lookup: "chain rb c d \<Longrightarrow> \<exists>r. map_of rb c = Some r"
  by (induction rule: chain.induct) simp_all

subsection \<open>The visits never run out of fuel\<close>

lemma visit_children_fuel:
  assumes step: "\<And>ch rb' flat. ch \<in> set cs \<Longrightarrow> agree butDepth rb rb' \<Longrightarrow>
            \<exists>st'. visit n ch d (rb', flat) = Some st' \<and> agree butDepth rb (fst st')"
    and "agree butDepth rb (fst s)"
  shows "\<exists>s'. foldl (\<lambda>acc ch. case acc of None \<Rightarrow> None | Some s \<Rightarrow> visit n ch d s) (Some s) cs = Some s'
           \<and> agree butDepth rb (fst s')"
  using assms
proof (induction cs arbitrary: s)
  case Nil
  then show ?case by simp
next
  case (Cons ch cs)
  obtain st' where st': "visit n ch d (fst s, snd s) = Some st'" "agree butDepth rb (fst st')"
    using Cons.prems(1)[of ch "fst s" "snd s"] Cons.prems(2) by auto
  have "\<exists>s'. foldl (\<lambda>acc ch. case acc of None \<Rightarrow> None | Some s \<Rightarrow> visit n ch d s) (Some st') cs = Some s'
           \<and> agree butDepth rb (fst s')"
  proof (rule Cons.IH)
    fix ch' rb' flat assume "ch' \<in> set cs" "agree butDepth rb rb'"
    then show "\<exists>st'. visit n ch' d (rb', flat) = Some st' \<and> agree butDepth rb (fst st')"
      using Cons.prems(1)[of ch' rb' flat] by simp
  next
    show "agree butDepth rb (fst st')" by (rule st'(2))
  qed
  then show ?case using st'(1) by simp
qed

lemma visit_fuel:
  assumes wf: "wfRows rb" "childrenOK rb"
  shows "chain rb c d \<Longrightarrow> length rb \<le> n + d \<Longrightarrow> agree butDepth rb rb' \<Longrightarrow>
         \<exists>st'. visit n c d (rb', flat) = Some st' \<and> agree butDepth rb (fst st')"
proof (induction n arbitrary: c d rb' flat)
  case 0
  then show ?case using chain_bound[of rb c d] by simp
next
  case (Suc n)
  obtain r where r: "map_of rb c = Some r" using chain_lookup[OF Suc.prems(1)] by blast
  obtain r' where r': "map_of rb' c = Some r'" "butDepth r' = butDepth r"
    using agree_lookup[OF Suc.prems(3) r] by blast
  have ch: "children r' = children r" using butDepth_eq[OF r'(2)] by simp
  let ?rb1 = "AList.update c (r'\<lparr>depth := d\<rparr>) rb'"
  have a1: "agree butDepth rb ?rb1"
    using Suc.prems(3) r'(1) by (rule agree_update) simp
  have "\<exists>s'. foldl (\<lambda>acc ch. case acc of None \<Rightarrow> None | Some s \<Rightarrow> visit n ch (d + 1) s)
                 (Some (?rb1, flat @ [c])) (children r) = Some s'
           \<and> agree butDepth rb (fst s')"
  proof (rule visit_children_fuel)
    fix x rb2 fl assume x: "x \<in> set (children r)" and a: "agree butDepth rb rb2"
    have "chain rb x (Suc d)" using wf Suc.prems(1) r x by (rule chain_child)
    then show "\<exists>st'. visit n x (d + 1) (rb2, fl) = Some st' \<and> agree butDepth rb (fst st')"
      using Suc.IH[of x "Suc d" rb2 fl] Suc.prems(2) a by simp
  next
    show "agree butDepth rb (fst (?rb1, flat @ [c]))" using a1 by simp
  qed
  then show ?case using r'(1) ch by simp
qed

lemma visitRoots_fuel:
  assumes "wfRows rb" "childrenOK rb" "\<forall>x \<in> set roots. chain rb x 0" "length rb \<le> n"
  shows "\<exists>st'. visitRoots n roots rb = Some st' \<and> agree butDepth rb (fst st')"
  unfolding visitRoots_def
proof (rule visit_children_fuel)
  fix x rb2 fl assume "x \<in> set roots" "agree butDepth rb rb2"
  then show "\<exists>st'. visit n x 0 (rb2, fl) = Some st' \<and> agree butDepth rb (fst st')"
    using visit_fuel[OF assms(1,2), of x 0 n rb2 fl] assms(3,4) by simp
next
  show "agree butDepth rb (fst (rb, []))" by simp
qed

lemma subtotal_children_fuel:
  assumes "\<And>ch s. ch \<in> set cs \<Longrightarrow> \<exists>s'. visitWithSubtotals n cfg cols rb ch s = Some s'"
  shows "\<exists>s'. foldl (\<lambda>acc ch. case acc of None \<Rightarrow> None
                       | Some s \<Rightarrow> visitWithSubtotals n cfg cols rb ch s) (Some s) cs = Some s'"
  using assms
proof (induction cs arbitrary: s)
  case Nil
  then show ?case by simp
next
  case (Cons ch cs)
  obtain s1 where s1: "visitWithSubtotals n cfg cols rb ch s = Some s1"
    using Cons.prems[of ch s] by auto
  have "\<exists>s'. foldl (\<lambda>acc ch. case acc of None \<Rightarrow> None
                       | Some s \<Rightarrow> visitWithSubtotals n cfg cols rb ch s) (Some s1) cs = Some s'"
    by (rule Cons.IH) (use Cons.prems in simp)
  then show ?case using s1 by simp
qed

lemma visitWithSubtotals_fuel:
  assumes wf: "wfRows rb" "childrenOK rb"
  shows "chain rb c d \<Longrightarrow> length rb \<le> n + d \<Longrightarrow>
         \<exists>st'. visitWithSubtotals n cfg cols rb c st = Some st'"
proof (induction n arbitrary: c d st)
  case 0
  then show ?case using chain_bound[of rb c d] by simp
next
  case (Suc n)
  obtain r where r: "map_of rb c = Some r" using chain_lookup[OF Suc.prems(1)] by blast
  have "\<exists>s'. foldl (\<lambda>acc ch. case acc of None \<Rightarrow> None
                       | Some s \<Rightarrow> visitWithSubtotals n cfg cols rb ch s)
                (Some (fst st @ [r], snd st)) (children r) = Some s'"
  proof (rule subtotal_children_fuel)
    fix x s assume x: "x \<in> set (children r)"
    have "chain rb x (Suc d)" using wf Suc.prems(1) r x by (rule chain_child)
    then show "\<exists>s'. visitWithSubtotals n cfg cols rb x s = Some s'"
      using Suc.IH[of x "Suc d" s] Suc.prems(2) by simp
  qed
  then show ?case using r by auto
qed

lemma injectSubtotals_fuel:
  assumes "wfRows rb" "childrenOK rb" "\<forall>x \<in> set roots. chain rb x 0" "length rb \<le> n"
  shows "\<exists>st'. injectSubtotals n cfg cols rb roots vm = Some st'"
  unfolding injectSubtotals_def
proof (rule subtotal_children_fuel)
  fix x s assume "x \<in> set roots"
  then show "\<exists>s'. visitWithSubtotals n cfg cols rb x s = Some s'"
    using visitWithSubtotals_fuel[OF assms(1,2), of x 0 n cfg cols s] assms(3,4) by simp
qed

text \<open>An executable form of \<open>childrenOK\<close>.\<close>

lemma childrenOK_code [code]:
  "childrenOK rb = list_all (\<lambda>kr. list_all (\<lambda>c. case map_of rb c of None \<Rightarrow> False
                        | Some rc \<Rightarrow> parent rc = Some (fst kr)) (children (snd kr))) rb"
proof -
  have e: "\<And>m k. (\<exists>rc::RowNode. m = Some rc \<and> parent rc = Some k)
             = (case m of None \<Rightarrow> False | Some rc \<Rightarrow> parent rc = Some k)"
    by (simp split: option.splits)
  show ?thesis unfolding childrenOK_def list_all_iff e ..
qed


lemma set_update_cases:
  "kv \<in> set (AList.update k v al) \<Longrightarrow> kv = (k, v) \<or> kv \<in> set al"
proof (induction al)
  case Nil
  then show ?case by simp
next
  case (Cons a al)
  show ?case
  proof (cases "fst a = k")
    case True
    then show ?thesis using Cons.prems by (cases a) auto
  next
    case False
    then show ?thesis using Cons by (cases a) auto
  qed
qed

lemma wfRows_lookup: "wfRows rb \<Longrightarrow> map_of rb k = Some r \<Longrightarrow> code r = k \<and> k \<noteq> []"
proof -
  assume wf: "wfRows rb" and l: "map_of rb k = Some r"
  have "(k, r) \<in> set rb" using l by (rule map_of_SomeD)
  then have "code (snd (k, r)) = fst (k, r) \<and> fst (k, r) \<noteq> []"
    using wf unfolding wfRows_def by blast
  then show ?thesis by simp
qed

lemma noKids_lookup: "noKids rb \<Longrightarrow> map_of rb k = Some r \<Longrightarrow> children r = []"
proof -
  assume nk: "noKids rb" and l: "map_of rb k = Some r"
  have "(k, r) \<in> set rb" using l by (rule map_of_SomeD)
  then have "children (snd (k, r)) = []" using nk unfolding noKids_def by blast
  then show ?thesis by simp
qed

lemma childrenOK_lookup:
  "childrenOK rb \<Longrightarrow> map_of rb k = Some r \<Longrightarrow> c \<in> set (children r) \<Longrightarrow>
     \<exists>rc. map_of rb c = Some rc \<and> parent rc = Some k"
proof -
  assume ok: "childrenOK rb" and l: "map_of rb k = Some r" and c: "c \<in> set (children r)"
  have "(k, r) \<in> set rb" using l by (rule map_of_SomeD)
  then have "\<forall>c \<in> set (children (snd (k, r))). \<exists>rc. map_of rb c = Some rc \<and> parent rc = Some (fst (k, r))"
    using ok unfolding childrenOK_def by (rule bspec[rotated])
  then show ?thesis using c by simp
qed

lemma map_of_map_values:
  "map_of (map (\<lambda>kr. (fst kr, g (snd kr))) rb) k = map_option g (map_of rb k)"
  by (induction rb) simp_all

lemma wfRows_update:
  assumes "wfRows rb" "code v = k" "k \<noteq> []"
  shows "wfRows (AList.update k v rb)"
proof -
  have "distinct (map fst (AList.update k v rb))"
    using assms(1) by (simp add: wfRows_def distinct_update)
  moreover have "\<forall>kr \<in> set (AList.update k v rb). code (snd kr) = fst kr \<and> fst kr \<noteq> []"
  proof
    fix kr assume "kr \<in> set (AList.update k v rb)"
    then have "kr = (k, v) \<or> kr \<in> set rb" by (rule set_update_cases)
    then show "code (snd kr) = fst kr \<and> fst kr \<noteq> []"
      using assms unfolding wfRows_def by auto
  qed
  ultimately show ?thesis by (simp add: wfRows_def)
qed

lemma noKids_update:
  assumes "noKids rb" "children v = []"
  shows "noKids (AList.update k v rb)"
  unfolding noKids_def
proof
  fix kr assume "kr \<in> set (AList.update k v rb)"
  then have "kr = (k, v) \<or> kr \<in> set rb" by (rule set_update_cases)
  then show "children (snd kr) = []" using assms unfolding noKids_def by auto
qed

lemma addRow_wf:
  assumes "wfRows (rowByCode rs)" "noKids (rowByCode rs)"
  shows "wfRows (rowByCode (addRow ds fm r fl fp rs)) \<and> noKids (rowByCode (addRow ds fm r fl fp rs))"
proof (cases "trim (l_code r) = []")
  case True
  then show ?thesis using assms by (simp add: addRow_def)
next
  case False
  then show ?thesis using assms
    by (simp add: addRow_def Let_def wfRows_update noKids_update)
qed

lemma mergeDataRow_wf:
  assumes "wfRows (rowByCode rs)" "noKids (rowByCode rs)"
  shows "wfRows (rowByCode (mergeDataRow ds fm rs cl)) \<and> noKids (rowByCode (mergeDataRow ds fm rs cl))"
proof (cases "map_of (rowByCode rs) (fst cl)")
  case None
  then show ?thesis using addRow_wf[OF assms] by (simp add: mergeDataRow_def Let_def)
next
  case (Some e)
  have c: "code e = fst cl \<and> fst cl \<noteq> []" using assms(1) Some by (rule wfRows_lookup)
  have k: "children e = []" using assms(2) Some by (rule noKids_lookup)
  show ?thesis using Some assms c k
    by (simp add: mergeDataRow_def Let_def wfRows_update noKids_update)
qed

lemma foldl_invariant:
  assumes "P s" "\<And>s x. x \<in> set xs \<Longrightarrow> P s \<Longrightarrow> P (f s x)"
  shows "P (foldl f s xs)"
  using assms by (induction xs arbitrary: s) simp_all

lemma buildRows_wf: "wfRows (buildRows ds fm lrs) \<and> noKids (buildRows ds fm lrs)"
proof -
  let ?P = "\<lambda>rs::row_state. wfRows (rowByCode rs) \<and> noKids (rowByCode rs)"
  have e: "?P \<lparr>rowByCode = [], nextOrderIndex = 0\<rparr>"
    by (simp add: wfRows_def noKids_def)
  have "?P (addLayoutRows ds fm lrs)"
    unfolding addLayoutRows_def
  proof (rule foldl_invariant[where P = ?P, OF e])
    fix rs r assume "?P rs"
    then show "?P (addRow ds fm r None None rs)" using addRow_wf[of rs ds fm r None None] by blast
  qed
  then have "?P (foldl (mergeDataRow ds fm) (addLayoutRows ds fm lrs) (dataLabelByCode ds))"
  proof (rule foldl_invariant[where P = ?P])
    fix rs cl assume "?P rs"
    then show "?P (mergeDataRow ds fm rs cl)" using mergeDataRow_wf[of rs ds fm cl] by blast
  qed
  then show ?thesis by (simp add: buildRows_def)
qed

subsection \<open>Linking and sorting the children\<close>

lemma map_proj_weaken:
  assumes "\<And>x y. f x = f y \<Longrightarrow> g x = g y"
  shows "map f xs = map f ys \<Longrightarrow> map g xs = map g ys"
proof (induction xs arbitrary: ys)
  case Nil
  then show ?case by simp
next
  case (Cons x xs)
  then obtain y ys2 where ys: "ys = y # ys2" by (cases ys) auto
  have "f x = f y" "map f xs = map f ys2" using Cons.prems ys by simp_all
  then have "g x = g y" "map g xs = map g ys2" using assms Cons.IH by blast+
  then show ?case by (simp add: ys)
qed

lemma agree_weaken:
  assumes "agree f rb rb'" "\<And>x y. f x = f y \<Longrightarrow> g x = g y"
  shows "agree g rb rb'"
proof -
  have "map (\<lambda>kr. f (snd kr)) rb' = map (\<lambda>kr. f (snd kr)) rb" using assms(1) by (simp add: agree_def)
  then have "map (\<lambda>kr. g (snd kr)) rb' = map (\<lambda>kr. g (snd kr)) rb"
    by (rule map_proj_weaken[where f = "\<lambda>kr. f (snd kr)", rotated]) (rule assms(2))
  then show ?thesis using assms(1) by (simp add: agree_def)
qed

lemma agree_butDepth_codeParent:
  assumes "agree butDepth rb rb'"
  shows "agree codeParent rb rb'"
proof (rule agree_weaken[OF assms])
  fix x y assume "butDepth x = butDepth y"
  then have "code x = code y \<and> parent x = parent y" using butDepth_eq[of x y] by simp
  then show "codeParent x = codeParent y" by (simp add: codeParent_def)
qed

lemma wfRows_agree:
  assumes "wfRows rb" "agree codeParent rb rb'"
  shows "wfRows rb'"
proof -
  have d: "distinct (map fst rb')" using assms by (simp add: wfRows_def agree_def)
  have "\<forall>kr \<in> set rb'. code (snd kr) = fst kr \<and> fst kr \<noteq> []"
  proof
    fix kr assume kr: "kr \<in> set rb'"
    then have "map_of rb' (fst kr) = Some (snd kr)" using d by simp
    then obtain r where "map_of rb (fst kr) = Some r" "codeParent r = codeParent (snd kr)"
      using agree_lookup[OF agree_sym[OF assms(2)]] by blast
    then show "code (snd kr) = fst kr \<and> fst kr \<noteq> []"
      using wfRows_lookup[OF assms(1)] by (auto simp: codeParent_def)
  qed
  then show ?thesis using d by (simp add: wfRows_def)
qed

lemma isRoot_agree:
  assumes "agree codeParent rb rb'" "codeParent r' = codeParent r"
  shows "isRoot rb' r' = isRoot rb r"
proof -
  have p: "parent r' = parent r" using assms(2) by (simp add: codeParent_def)
  show ?thesis
  proof (cases "parent r")
    case None
    then show ?thesis using p by (simp add: isRoot_def)
  next
    case (Some q)
    have "map_of rb q = None \<longleftrightarrow> map_of rb' q = None"
      using assms(1) by (rule agree_lookup_None)
    then show ?thesis using p Some by (simp add: isRoot_def)
  qed
qed

text \<open>A child link survives any change that keeps the keys and the parents.\<close>

lemma child_link_agree:
  assumes "agree codeParent rb rb'" "map_of rb c = Some rc" "parent rc = Some k"
  shows "\<exists>rc'. map_of rb' c = Some rc' \<and> parent rc' = Some k"
  using agree_lookup[OF assms(1,2)] assms(3) by (auto simp: codeParent_def)

lemma childrenOK_I:
  assumes "distinct (map fst rb)"
    and "\<And>k r c. map_of rb k = Some r \<Longrightarrow> c \<in> set (children r) \<Longrightarrow>
           \<exists>rc. map_of rb c = Some rc \<and> parent rc = Some k"
  shows "childrenOK rb"
  unfolding childrenOK_def
proof (intro ballI)
  fix kr c assume "kr \<in> set rb" "c \<in> set (children (snd kr))"
  then show "\<exists>rc. map_of rb c = Some rc \<and> parent rc = Some (fst kr)"
    using assms(2)[of "fst kr" "snd kr" c] assms(1) by simp
qed

lemma linkChild_inv:
  assumes wf0: "wfRows rb0" and a: "agree codeParent rb0 rb" and ok: "childrenOK rb"
    and r: "r \<in> snd ` set rb0"
  shows "agree codeParent rb0 (linkChild rb r) \<and> childrenOK (linkChild rb r)"
proof (cases "\<exists>p pn. parent r = Some p \<and> p \<noteq> [] \<and> map_of rb p = Some pn")
  case False
  then have "linkChild rb r = rb" by (auto simp: linkChild_def split: option.splits)
  then show ?thesis using a ok by simp
next
  case True
  then obtain p pn where p: "parent r = Some p" "p \<noteq> []" "map_of rb p = Some pn" by blast
  let ?pn = "pn\<lparr>children := children pn @ [code r]\<rparr>"
  let ?rb = "AList.update p ?pn rb"
  have eq: "linkChild rb r = ?rb" using p by (simp add: linkChild_def)
  have a1: "agree codeParent rb ?rb"
    by (rule agree_update[OF agree_refl p(3)]) (simp add: codeParent_def)
  have a2: "agree codeParent rb0 ?rb" using a a1 by (rule agree_trans)
  have wf: "wfRows rb" using wf0 a by (rule wfRows_agree)
  have wf1: "wfRows ?rb" using wf0 a2 by (rule wfRows_agree)
  obtain k0 where "(k0, r) \<in> set rb0" using r by auto
  then have "map_of rb0 (code r) = Some r" using wf0 unfolding wfRows_def by fastforce
  then obtain r2 where r2: "map_of rb (code r) = Some r2" "parent r2 = Some p"
    using agree_lookup[OF a] p(1) by (fastforce simp: codeParent_def)
  have "childrenOK ?rb"
  proof (rule childrenOK_I)
    show "distinct (map fst ?rb)" using wf1 by (simp add: wfRows_def)
  next
    fix k x c assume kx: "map_of ?rb k = Some x" and c: "c \<in> set (children x)"
    have "\<exists>rc. map_of rb c = Some rc \<and> parent rc = Some k"
    proof (cases "k = p")
      case True
      then have "x = ?pn" using kx by (simp add: update_conv')
      then have "c \<in> set (children pn) \<or> c = code r" using c by auto
      then show ?thesis
      proof
        assume "c \<in> set (children pn)"
        then show ?thesis using childrenOK_lookup[OF ok p(3)] True by simp
      next
        assume "c = code r"
        then show ?thesis using r2 True by simp
      qed
    next
      case False
      then have "map_of rb k = Some x" using kx by (simp add: update_conv')
      then show ?thesis using childrenOK_lookup[OF ok _ c] by simp
    qed
    then obtain rc where "map_of rb c = Some rc" "parent rc = Some k" by blast
    then show "\<exists>rc. map_of ?rb c = Some rc \<and> parent rc = Some k"
      using child_link_agree[OF a1] by simp
  qed
  then show ?thesis using a2 eq by simp
qed

lemma noKids_childrenOK: "noKids rb \<Longrightarrow> childrenOK rb"
  by (simp add: noKids_def childrenOK_def)

lemma linkChildren_inv:
  assumes "wfRows rb0" "noKids rb0"
  shows "agree codeParent rb0 (linkChildren rb0) \<and> childrenOK (linkChildren rb0)"
  unfolding linkChildren_def
proof (rule foldl_invariant[where P = "\<lambda>rb. agree codeParent rb0 rb \<and> childrenOK rb"])
  show "agree codeParent rb0 rb0 \<and> childrenOK rb0"
    using assms(2) by (simp add: noKids_childrenOK)
next
  fix rb r assume "r \<in> set (map snd rb0)" "agree codeParent rb0 rb \<and> childrenOK rb"
  then show "agree codeParent rb0 (linkChild rb r) \<and> childrenOK (linkChild rb r)"
    using linkChild_inv[OF assms(1), of rb r] by simp
qed

lemma set_insertBy [simp]: "set (insertBy cmp x xs) = insert x (set xs)"
  by (induction xs) auto

lemma set_sortBy [simp]: "set (sortBy cmp xs) = set xs"
  unfolding sortBy_def by (induction xs) simp_all

lemma length_insertBy [simp]: "length (insertBy cmp x xs) = Suc (length xs)"
  by (induction xs) auto

lemma length_sortBy [simp]: "length (sortBy cmp xs) = length xs"
  unfolding sortBy_def by (induction xs) simp_all

lemma sortAllChildren_agree: "agree codeParent rb (sortAllChildren B rb)"
  by (simp add: agree_def sortAllChildren_def codeParent_def case_prod_unfold)

lemma map_of_sortAllChildren:
  "map_of (sortAllChildren B rb) k
     = map_option (\<lambda>r. r\<lparr>children := sortChildren B rb (children r)\<rparr>) (map_of rb k)"
  using map_of_map_values[of "\<lambda>r. r\<lparr>children := sortChildren B rb (children r)\<rparr>" rb k]
  by (simp add: sortAllChildren_def case_prod_unfold)

lemma sortAllChildren_ok:
  assumes "wfRows rb" "childrenOK rb"
  shows "childrenOK (sortAllChildren B rb)"
proof (rule childrenOK_I)
  have "wfRows (sortAllChildren B rb)" using assms(1) sortAllChildren_agree by (rule wfRows_agree)
  then show "distinct (map fst (sortAllChildren B rb))" by (simp add: wfRows_def)
next
  fix k x c assume kx: "map_of (sortAllChildren B rb) k = Some x" and c: "c \<in> set (children x)"
  then obtain r where r: "map_of rb k = Some r" "x = r\<lparr>children := sortChildren B rb (children r)\<rparr>"
    by (auto simp: map_of_sortAllChildren)
  then have "c \<in> set (children r)" using c by (simp add: sortChildren_def)
  then obtain rc where "map_of rb c = Some rc" "parent rc = Some k"
    using childrenOK_lookup[OF assms(2) r(1)] by blast
  then show "\<exists>rc. map_of (sortAllChildren B rb) c = Some rc \<and> parent rc = Some k"
    using child_link_agree[OF sortAllChildren_agree] by simp
qed

subsection \<open>The columns have distinct keys\<close>

lemma ensureColumn_colInv:
  assumes "colInv st"
  shows "colInv (snd (ensureColumn b m cl st))"
proof -
  define k where "k = join ''||'' cl @ ''||'' @ (b @ ''||'' @ m)"
  define col where "col = \<lparr>bucket = b, cmeasure = Some m, key = k,
       levels = makeLevels cl (formatColumnLeafLabel m (b @ ''||'' @ m)), columnLevels = cl,
       leafLabel = formatColumnLeafLabel m (b @ ''||'' @ m)\<rparr>"
  have e: "ensureColumn b m cl st =
      (case columnsByKey st k of
         Some existing \<Rightarrow> (existing, st)
       | None \<Rightarrow> (col, st\<lparr>columnsByKey := (columnsByKey st)(k \<mapsto> col),
                              columns := columns st @ [col]\<rparr>))"
    unfolding ensureColumn_def k_def col_def Let_def by (rule refl)
  show ?thesis
  proof (cases "columnsByKey st k")
    case (Some x)
    then show ?thesis using assms by (simp add: e)
  next
    case None
    then have n: "k \<notin> key ` set (columns st)" using assms by (simp add: colInv_def)
    have kc: "key col = k" by (simp add: col_def)
    have "colInv (st\<lparr>columnsByKey := (columnsByKey st)(k \<mapsto> col), columns := columns st @ [col]\<rparr>)"
      using assms n kc by (auto simp: colInv_def)
    then show ?thesis using None by (simp add: e)
  qed
qed


lemma storeMeasure_colInv: "colInv st \<Longrightarrow> colInv (storeMeasure B lc cl st mv)"
  using ensureColumn_colInv[of st "''values''" "fst mv" cl]
  by (simp add: storeMeasure_def Let_def colInv_def)

lemma discoverGroup_columns:
  "columns (discoverGroup g st) = columns st \<and> columnsByKey (discoverGroup g st) = columnsByKey st"
  by (simp add: discoverGroup_def split: option.splits)

lemma discoverLevel_columns:
  "columns (snd (discoverLevel rl g pst lvl)) = columns (snd pst)
   \<and> columnsByKey (snd (discoverLevel rl g pst lvl)) = columnsByKey (snd pst)"
  by (simp add: discoverLevel_def Let_def)

lemma discoverLevels_columns:
  "columns (snd (foldl (discoverLevel rl g) pst ls)) = columns (snd pst)
   \<and> columnsByKey (snd (foldl (discoverLevel rl g) pst ls)) = columnsByKey (snd pst)"
  by (induction ls arbitrary: pst) (simp_all add: discoverLevel_columns)

lemma readRecord_colInv:
  assumes "colInv st"
  shows "colInv (readRecord B st r)"
proof (cases "length (getRowLevels B r) = 0")
  case True
  then show ?thesis using assms by (simp add: readRecord_def)
next
  case False
  let ?rl = "getRowLevels B r" and ?g = "getGroup B r"
  let ?st2 = "snd (foldl (discoverLevel ?rl ?g) (?g, discoverGroup ?g st) [0 ..< length ?rl])"
  have "colInv ?st2"
    using assms discoverLevels_columns[of ?rl ?g "(?g, discoverGroup ?g st)" "[0 ..< length ?rl]"]
      discoverGroup_columns[of ?g st]
    by (simp add: colInv_def)
  then have "colInv (foldl (storeMeasure B (join ''||'' ?rl) (getColumnLevels B r)) ?st2 (measureValues r))"
    by (rule foldl_invariant) (rule storeMeasure_colInv)
  then show ?thesis using False by (simp add: readRecord_def Let_def)
qed

lemma readData_colInv: "colInv (readData B rs)"
  unfolding readData_def
proof (rule foldl_invariant)
  show "colInv emptyBuild" by (simp add: colInv_def emptyBuild_def)
next
  fix s x assume "colInv s"
  then show "colInv (readRecord B s x)" by (rule readRecord_colInv)
qed

lemma distinct_map_insertBy:
  "distinct (map f (insertBy cmp x xs)) = (f x \<notin> f ` set xs \<and> distinct (map f xs))"
  by (induction xs) auto

lemma distinct_map_sortBy: "distinct (map f (sortBy cmp xs)) = distinct (map f xs)"
proof (induction xs)
  case Nil
  show ?case by (simp add: sortBy_def)
next
  case (Cons x xs)
  have "sortBy cmp (x # xs) = insertBy cmp x (sortBy cmp xs)" by (simp add: sortBy_def)
  then show ?case using Cons by (simp add: distinct_map_insertBy)
qed

lemma sortColumns_distinct: "distinct (map key (sortColumns B (columns (readData B rs))))"
  using readData_colInv[of B rs] by (simp add: sortColumns_def distinct_map_sortBy colInv_def)

subsection \<open>The hierarchy is always built, and is well formed\<close>

lemma chain_zero_agree:
  assumes "chain rb x 0" "agree codeParent rb rb'"
  shows "chain rb' x 0"
proof -
  obtain r where r: "map_of rb x = Some r" "isRoot rb r" using assms(1) by (rule chain_zeroE)
  obtain r' where r': "map_of rb' x = Some r'" "codeParent r' = codeParent r"
    using agree_lookup[OF assms(2) r(1)] by blast
  have "isRoot rb' r'" using isRoot_agree[OF assms(2) r'(2)] r(2) by simp
  with r'(1) show ?thesis by (rule chain.chain_root)
qed

lemma rootsOf_chain:
  assumes "wfRows rb" "x \<in> set (rootsOf rb)"
  shows "chain rb x 0"
proof -
  obtain kr where kr: "kr \<in> set rb" "isRoot rb (snd kr)" "x = code (snd kr)"
    using assms(2) by (auto simp: rootsOf_def)
  have "code (snd kr) = fst kr" using assms(1) kr(1) unfolding wfRows_def by blast
  moreover have "map_of rb (fst kr) = Some (snd kr)"
    using assms(1) kr(1) unfolding wfRows_def by simp
  ultimately have "map_of rb x = Some (snd kr)" using kr(3) by simp
  then show ?thesis using kr(2) by (rule chain.chain_root)
qed

lemma childrenOK_agree:
  assumes "wfRows rb" "childrenOK rb" "agree butDepth rb rb'"
  shows "childrenOK rb'"
proof (rule childrenOK_I)
  have a: "agree codeParent rb rb'" using assms(3) by (rule agree_butDepth_codeParent)
  have "wfRows rb'" using assms(1) a by (rule wfRows_agree)
  then show "distinct (map fst rb')" by (simp add: wfRows_def)
  fix k x c assume kx: "map_of rb' k = Some x" and c: "c \<in> set (children x)"
  obtain r where r: "map_of rb k = Some r" "butDepth r = butDepth x"
    using agree_lookup[OF agree_sym[OF assms(3)] kx] by blast
  have "children r = children x" using butDepth_eq[OF r(2)] by simp
  then obtain rc where "map_of rb c = Some rc" "parent rc = Some k"
    using childrenOK_lookup[OF assms(2) r(1)] c by auto
  then show "\<exists>rc. map_of rb' c = Some rc \<and> parent rc = Some k"
    using child_link_agree[OF a] by simp
qed

lemma buildHierarchy_total:
  "\<exists>h. buildHierarchy B cfg rs = Some h \<and> wfHierarchy h"
proof -
  let ?ds = "readData B rs"
  let ?cols = "sortColumns B (columns ?ds)"
  let ?rb0 = "buildRows ?ds (formulas cfg) (layoutRows cfg)"
  let ?rb1 = "linkChildren ?rb0"
  let ?rb2 = "sortAllChildren B ?rb1"
  let ?roots = "sortChildren B ?rb2 (rootsOf ?rb1)"
  have wf0: "wfRows ?rb0" "noKids ?rb0" using buildRows_wf by blast+
  have l: "agree codeParent ?rb0 ?rb1" "childrenOK ?rb1" using linkChildren_inv[OF wf0] by blast+
  have wf1: "wfRows ?rb1" using wf0(1) l(1) by (rule wfRows_agree)
  have a12: "agree codeParent ?rb1 ?rb2" by (rule sortAllChildren_agree)
  have wf2: "wfRows ?rb2" using wf1 a12 by (rule wfRows_agree)
  have ok2: "childrenOK ?rb2" using wf1 l(2) by (rule sortAllChildren_ok)
  have roots2: "\<forall>x \<in> set ?roots. chain ?rb2 x 0"
  proof
    fix x assume "x \<in> set ?roots"
    then have "x \<in> set (rootsOf ?rb1)" by (simp add: sortChildren_def)
    then have "chain ?rb1 x 0" using wf1 by (intro rootsOf_chain)
    then show "chain ?rb2 x 0" using a12 by (rule chain_zero_agree)
  qed
  obtain fs where fs: "visitRoots (Suc (length ?rb2)) ?roots ?rb2 = Some fs" "agree butDepth ?rb2 (fst fs)"
    using visitRoots_fuel[OF wf2 ok2 roots2, of "Suc (length ?rb2)"] by auto
  let ?h = "\<lparr>hColumns = ?cols, hRowByCode = fst fs, hRoots = ?roots,
              hFlatRows = rowsOfCodes (fst fs) (snd fs),
              hValues = prefill (fst fs) ?cols (valuesMap (cellMaps ?ds)),
              hValuesRaw = valuesRawMap (cellMaps ?ds)\<rparr>"
  have eq: "buildHierarchy B cfg rs = Some ?h"
    using fs(1) by (simp add: buildHierarchy_def Let_def)
  have a23: "agree codeParent ?rb2 (fst fs)" using fs(2) by (rule agree_butDepth_codeParent)
  have "wfRows (fst fs)" using wf2 a23 by (rule wfRows_agree)
  moreover have "childrenOK (fst fs)" using wf2 ok2 fs(2) by (rule childrenOK_agree)
  moreover have "\<forall>x \<in> set ?roots. chain (fst fs) x 0"
    using roots2 a23 chain_zero_agree by blast
  moreover have "set (rowsOfCodes (fst fs) (snd fs)) \<subseteq> snd ` set (fst fs)"
    using rowsOfCodes_subset[of "fst fs" "snd fs"] by simp
  moreover have "distinct (map key ?cols)" by (rule sortColumns_distinct)
  moreover have "covers (prefill (fst fs) ?cols (valuesMap (cellMaps ?ds))) (map snd (fst fs)) ?cols"
    by (rule covers_prefill)
  ultimately have "wfHierarchy ?h" by (simp add: wfHierarchy_def)
  then show ?thesis using eq by blast
qed

lemma finishModel_total:
  assumes "wfHierarchy h"
  shows "\<exists>m. finishModel B cfg h = Some m"
proof (cases "showSubtotals cfg")
  case False
  then show ?thesis by (simp add: finishModel_def Let_def)
next
  case True
  obtain st where "injectSubtotals (Suc (length (hRowByCode h))) cfg (hColumns h) (hRowByCode h)
                     (hRoots h) (computedValues B cfg h) = Some st"
    using injectSubtotals_fuel[of "hRowByCode h" "hRoots h" "Suc (length (hRowByCode h))"]
      assms unfolding wfHierarchy_def by fastforce
  then show ?thesis using True by (simp add: finishModel_def Let_def)
qed

lemma buildModel_total: "\<exists>m. buildModel B cfg rs = Some m"
proof -
  obtain h where h: "buildHierarchy B cfg rs = Some h" "wfHierarchy h"
    using buildHierarchy_total by blast
  obtain m where "finishModel B cfg h = Some m" using finishModel_total[OF h(2)] by blast
  then show ?thesis using h(1) by (simp add: buildModel_def)
qed

section \<open>Sums of the present values\<close>

lemma cellOf_Some: "cellOf vm c k = Some v \<longleftrightarrow> lookup2 vm c k = Some (Some v)"
  by (simp add: cellOf_def split: option.splits)

lemma cellOf_None: "cellOf vm c k = None \<longleftrightarrow> (lookup2 vm c k = None \<or> lookup2 vm c k = Some None)"
  by (simp add: cellOf_def split: option.splits)

lemma sumStep_cellOf:
  "sumStep vm k acc c = (case cellOf vm c k of Some cv \<Rightarrow> (jadd (fst acc) cv, True) | None \<Rightarrow> acc)"
  by (simp add: sumStep_def cellOf_def split: option.splits)

lemma foldl_sumStep:
  "foldl (sumStep vm k) acc cs
     = (foldl jadd (fst acc) (presentVals vm k cs), snd acc \<or> presentVals vm k cs \<noteq> [])"
proof (induction cs arbitrary: acc)
  case Nil
  show ?case by (simp add: presentVals_def)
next
  case (Cons c cs)
  show ?case unfolding foldl_Cons Cons.IH
    by (cases "cellOf vm c k") (simp_all add: sumStep_cellOf presentVals_def)
qed

lemma totalOf_sumCells: "totalOf baz (sumCells vm k cs) = sumOfPresent baz vm k cs"
  by (simp add: sumCells_def foldl_sumStep totalOf_def sumOfPresent_def jsum_def Let_def)

lemma presentVals_Cons:
  "presentVals vm k (c # cs)
     = (case cellOf vm c k of None \<Rightarrow> presentVals vm k cs | Some v \<Rightarrow> v # presentVals vm k cs)"
  by (simp add: presentVals_def split: option.splits)

lemma presentVals_cong:
  "(\<And>c. c \<in> set cs \<Longrightarrow> cellOf vm c k = cellOf vm' c k) \<Longrightarrow>
     presentVals vm k cs = presentVals vm' k cs"
proof (induction cs)
  case Nil
  show ?case by (simp add: presentVals_def)
next
  case (Cons c cs)
  have "cellOf vm c k = cellOf vm' c k" using Cons.prems by simp
  moreover have "presentVals vm k cs = presentVals vm' k cs" using Cons by simp
  ultimately show ?case by (simp add: presentVals_Cons split: option.splits)
qed

lemma sumOfPresent_cong:
  "(\<And>c. c \<in> set cs \<Longrightarrow> cellOf vm c k = cellOf vm' c k) \<Longrightarrow>
     sumOfPresent baz vm k cs = sumOfPresent baz vm' k cs"
  using presentVals_cong[of cs vm k vm'] by (simp add: sumOfPresent_def)



text \<open>The cells of a total row, written column by column.\<close>

lemma total_cells_value:
  assumes "distinct (map key cols)" "m c0 \<noteq> None"
  shows "lookup2 (foldl (\<lambda>m col. put2 m c0 (key col) (totalOf baz (sumCells m (key col) cs))) m cols) c k
      = (if c = c0 \<and> k \<in> key ` set cols then Some (sumOfPresent baz m k cs) else lookup2 m c k)"
  using assms
proof (induction cols arbitrary: m)
  case Nil
  show ?case by simp
next
  case (Cons col cols)
  let ?m1 = "put2 m c0 (key col) (totalOf baz (sumCells m (key col) cs))"
  have d: "?m1 c0 \<noteq> None" using Cons.prems(2) by (auto simp: put2_def split: option.splits)
  have dk: "distinct (map key cols)" and nk: "key col \<notin> key ` set cols"
    using Cons.prems(1) by simp_all
  have l1: "\<And>c' k'. lookup2 ?m1 c' k'
      = (if c' = c0 \<and> k' = key col then Some (sumOfPresent baz m k' cs) else lookup2 m c' k')"
    using Cons.prems(2) by (simp add: lookup2_put2 totalOf_sumCells)
  have ih: "lookup2 (foldl (\<lambda>m col. put2 m c0 (key col) (totalOf baz (sumCells m (key col) cs))) ?m1 cols) c k
      = (if c = c0 \<and> k \<in> key ` set cols then Some (sumOfPresent baz ?m1 k cs) else lookup2 ?m1 c k)"
    using dk d by (rule Cons.IH)
  show ?case
  proof (cases "c = c0 \<and> k \<in> key ` set cols")
    case True
    then have kk: "k \<noteq> key col" using nk by blast
    have s: "sumOfPresent baz ?m1 k cs = sumOfPresent baz m k cs"
    proof (rule sumOfPresent_cong)
      fix c' show "cellOf ?m1 c' k = cellOf m c' k" using kk by (simp add: cellOf_def l1)
    qed
    have t: "c = c0 \<and> k \<in> key ` set (col # cols)" using True by auto
    show ?thesis unfolding foldl_Cons ih if_P[OF True] if_P[OF t] s ..
  next
    case False
    have e: "lookup2 (foldl (\<lambda>m col. put2 m c0 (key col) (totalOf baz (sumCells m (key col) cs))) ?m1 cols) c k
       = lookup2 ?m1 c k" unfolding ih by (rule if_not_P) (rule False)
    show ?thesis
    proof (cases "c = c0 \<and> k = key col")
      case True
      then have t: "c = c0 \<and> k \<in> key ` set (col # cols)" by auto
      have "lookup2 ?m1 c k = Some (sumOfPresent baz m k cs)"
        unfolding l1 by (rule if_P) (rule True)
      then show ?thesis unfolding foldl_Cons e if_P[OF t] .
    next
      case F2: False
      have t: "\<not> (c = c0 \<and> k \<in> key ` set (col # cols))" using False F2 by auto
      have "lookup2 ?m1 c k = lookup2 m c k"
        unfolding l1 by (rule if_not_P) (rule F2)
      then show ?thesis unfolding foldl_Cons e if_not_P[OF t] .
    qed
  qed
qed

lemma sumOfPresent_ensureRow [simp]:
  "sumOfPresent baz (ensureRow vm c0) k cs = sumOfPresent baz vm k cs"
  by (rule sumOfPresent_cong) (simp add: cellOf_def)

lemma lookup2_subtotalCells:
  assumes "distinct (map key cols)"
  shows "lookup2 (subtotalCells baz r cols vm) c k
     = (if c = subtotalCode (code r) \<and> k \<in> key ` set cols
        then Some (sumOfPresent baz vm k (children r)) else lookup2 vm c k)"
  unfolding subtotalCells_def
  using total_cells_value[OF assms, of "ensureRow vm (subtotalCode (code r))" "subtotalCode (code r)" baz
          "children r" c k]
  by (simp add: ensureRow_defined)


section \<open>Conditional formatting: last write wins per property\<close>

lemma evalCfRulesLoop_step:
  "evalCfRulesLoop B ctx out (rule # rules) =
     evalCfRulesLoop B ctx
       (if ruleApplies B ctx rule then Some (mergeStyle out (style rule)) else out) rules"
  by (simp add: ruleApplies_def Let_def)

lemma evalCfCellLoop_step:
  "evalCfCellLoop B ctx out (rule # rules) =
     evalCfCellLoop B ctx
       (if ruleAppliesToCell B ctx rule then Some (mergeStyle out (style rule)) else out) rules"
  by (simp add: ruleAppliesToCell_def Let_def)

lemma evalCfRulesLoop_filter:
  "evalCfRulesLoop B ctx out rules =
     foldl (\<lambda>acc s. Some (mergeStyle acc s)) out (map style (filter (ruleApplies B ctx) rules))"
proof (induction rules arbitrary: out)
  case Nil show ?case by simp
next
  case (Cons rule rules)
  show ?case unfolding evalCfRulesLoop_step Cons.IH by simp
qed

lemma evalCfCellLoop_filter:
  "evalCfCellLoop B ctx out rules =
     foldl (\<lambda>acc s. Some (mergeStyle acc s)) out (map style (filter (ruleAppliesToCell B ctx) rules))"
proof (induction rules arbitrary: out)
  case Nil show ?case by simp
next
  case (Cons rule rules)
  show ?case unfolding evalCfCellLoop_step Cons.IH by simp
qed

lemma lastDefined_Nil [simp]: "lastDefined f [] = None"
  by (simp add: lastDefined_def)

lemma lastDefined_snoc: "lastDefined f (ss @ [s]) = spreadProp (lastDefined f ss) (f s)"
  by (cases "f s") (auto simp: lastDefined_def spreadProp_def)

lemma foldl_mergeStyle_snoc:
  "foldl (\<lambda>acc s. Some (mergeStyle acc s)) out (ss @ [s]) =
     Some (mergeStyle (foldl (\<lambda>acc s. Some (mergeStyle acc s)) out ss) s)"
  by simp

lemma spreadProp_None [simp]: "spreadProp None b = b"
  by (cases b) (simp_all add: spreadProp_def)

lemma lastDefined_single [simp]: "lastDefined f [s] = f s"
  using lastDefined_snoc[of f "[]" s] by simp

lemma foldl_mergeStyle_lastWriteWins:
  "foldl (\<lambda>acc s. Some (mergeStyle acc s)) None ss = lastWriteWins ss"
proof (induction ss rule: rev_induct)
  case Nil
  show ?case by (simp add: lastWriteWins_def)
next
  case (snoc s ss)
  show ?case
  proof (cases "ss = []")
    case True
    then show ?thesis
      by (simp add: lastWriteWins_def mergeStyle_def emptyStyle_def lastDefined_snoc)
  next
    case False
    then show ?thesis using snoc.IH
      by (simp add: lastWriteWins_def mergeStyle_def lastDefined_snoc)
  qed
qed

text \<open>
  Claim C9. Both rule evaluators return nothing when no rule applies, and otherwise the
  style in which every property has the value given by the last rule, in list order,
  that applies and defines that property: a later rule overwrites exactly the properties
  it defines and leaves the others as the earlier rules set them.
\<close>

theorem cf_rules_last_write_wins:
  "evalCfRules B rules ctx = lastWriteWins (map style (filter (ruleApplies B ctx) rules))
   \<and> evalCfRulesForValueCell B rules ctx
       = lastWriteWins (map style (filter (ruleAppliesToCell B ctx) rules))"
  by (simp add: evalCfRules_def evalCfRulesForValueCell_def evalCfRulesLoop_filter
        evalCfCellLoop_filter foldl_mergeStyle_lastWriteWins)

lemma trim_zero: "trim ''0'' = ''0''"
  by (simp add: trim_def isWs_def)

lemma bg_applies_cell: "ruleAppliesToCell numB cellCtx (bgRule i c b)"
  by (simp add: ruleAppliesToCell_def bgRule_def cellCtx_def numB_def matchText_def propOf_def scopeOf_def
      valueCondition_def parseNum_def  jle_def jeq_def trim_zero)

lemma bg_applies: "ruleApplies numB cellCtx (bgRule i c b)"
    by (simp add: ruleApplies_def bgRule_def cellCtx_def numB_def matchText_def propOf_def
      valueCondition_def parseNum_def jle_def jeq_def trim_zero)

lemma bg_style: "style (bgRule i c b) = emptyStyle\<lparr>background := Some c, bold := b\<rparr>"
  by (simp add: bgRule_def)

lemma two_styles:
  "lastWriteWins [emptyStyle\<lparr>background := Some ''red'', bold := Some True\<rparr>,
                  emptyStyle\<lparr>background := Some ''blue'', bold := None\<rparr>]
   = Some (emptyStyle\<lparr>background := Some ''blue'', bold := Some True\<rparr>)"
  by (auto simp: lastWriteWins_def lastDefined_def emptyStyle_def)

text \<open>Two enabled background rules on one cell: the later colour wins, and the bold
  flag that only the earlier rule defines stays.\<close>

theorem cf_rules_last_write_wins_witness:
  "evalCfRulesForValueCell numB [bgRule ''r1'' ''red'' (Some True), bgRule ''r2'' ''blue'' None] cellCtx
     = Some (emptyStyle\<lparr>background := Some ''blue'', bold := Some True\<rparr>)
   \<and> evalCfRules numB [bgRule ''r1'' ''red'' (Some True), bgRule ''r2'' ''blue'' None] cellCtx
     = Some (emptyStyle\<lparr>background := Some ''blue'', bold := Some True\<rparr>)"
  using cf_rules_last_write_wins[of numB "[bgRule ''r1'' ''red'' (Some True), bgRule ''r2'' ''blue'' None]" cellCtx]
  by (simp only: filter.simps list.map bg_applies bg_applies_cell if_True bg_style two_styles)

section \<open>The value map is total over rows and columns\<close>

lemma ex_cells:
  "(case buildModel stdB exCfg exRecs of
      None \<Rightarrow> False
    | Some m \<Rightarrow>
        map code (mRows m) = [''US'', ''EU'', ''__grand_total'']
        \<and> map key (mColumns m) = [''2023||values||Sales'', ''2024||values||Sales'']
        \<and> lookup2 (mValues m) ''EU'' ''2024||values||Sales'' = Some None
        \<and> lookup2 (mValues m) ''__grand_total'' ''2023||values||Sales'' = Some (Some (Fin 180)))"
  by code_simp

text \<open>
  Claim C10. Every rebuild returns a model, and in it the value map has an entry (a number
  or \<open>null\<close>) for every row of the row map and for every row of the model's row list
  (subtotal and grand-total rows included), in every column of the column list.
\<close>

theorem values_total:
  "\<exists>h m. buildHierarchy B cfg rs = Some h \<and> buildModel B cfg rs = Some m
     \<and> covers (mValues m) (map snd (hRowByCode h)) (mColumns m)
     \<and> covers (mValues m) (mRows m) (mColumns m)"
proof -
  obtain h where h: "buildHierarchy B cfg rs = Some h" "wfHierarchy h"
    using buildHierarchy_total by blast
  obtain m where m: "finishModel B cfg h = Some m" using finishModel_total[OF h(2)] by blast
  let ?cols = "hColumns h" and ?rb = "hRowByCode h"
  let ?vm2 = "computedValues B cfg h"
  have c0: "covers (hValues h) (map snd ?rb) ?cols" using h(2) by (simp add: wfHierarchy_def)
  have c2: "covers ?vm2 (map snd ?rb) ?cols"
    using c0 grows_computedValues by (rule covers_grows)
  have f2: "covers ?vm2 (hFlatRows h) ?cols"
    using c2 by (rule covers_mono) (use h(2) in \<open>simp add: wfHierarchy_def\<close>)
  obtain st where st: "(if showSubtotals cfg
               then injectSubtotals (Suc (length ?rb)) cfg ?cols ?rb (hRoots h) ?vm2
               else Some (hFlatRows h, ?vm2)) = Some st"
    and mm: "m = (let st' = (if showGrandTotal cfg then injectGrandTotal cfg ?cols st else st)
                  in \<lparr>mColumns = ?cols, mRows = fst st', mValues = snd st',
                       mValuesRaw = hValuesRaw h\<rparr>)"
    using m by (auto simp: finishModel_def Let_def split: option.splits)
  have s3: "grows ?vm2 (snd st) \<and> covers (snd st) (fst st) ?cols"
  proof (cases "showSubtotals cfg")
    case True
    then show ?thesis using st injectSubtotals_covers[OF _ c2] by simp
  next
    case False
    then show ?thesis using st f2 by auto
  qed
  let ?st' = "if showGrandTotal cfg then injectGrandTotal cfg ?cols st else st"
  have s4: "grows (snd st) (snd ?st') \<and> covers (snd ?st') (fst ?st') ?cols"
    using s3 injectGrandTotal_covers[of st ?cols cfg] by simp
  have "grows ?vm2 (snd ?st')" using s3 s4 grows_trans by blast
  then have "covers (snd ?st') (map snd ?rb) ?cols" using c2 covers_grows by blast
  then have "covers (mValues m) (map snd ?rb) (mColumns m) \<and> covers (mValues m) (mRows m) (mColumns m)"
    using s4 by (simp add: mm Let_def)
  then show ?thesis using h(1) m by (auto simp: buildModel_def)
qed

text \<open>In the end-to-end example the cell of EU in 2024, which no record feeds, is present
  and \<open>null\<close>.\<close>

theorem values_total_witness:
  "\<exists>m. buildModel stdB exCfg exRecs = Some m
     \<and> covers (mValues m) (mRows m) (mColumns m)
     \<and> map code (mRows m) = [''US'', ''EU'', ''__grand_total'']
     \<and> map key (mColumns m) = [''2023||values||Sales'', ''2024||values||Sales'']
     \<and> lookup2 (mValues m) ''EU'' ''2024||values||Sales'' = Some None"
  using values_total[of stdB exCfg exRecs] ex_cells by (auto split: option.splits)

section \<open>Auto-aggregation of parents\<close>













section \<open>The grand total\<close>

lemma lookup2_grandTotalCells:
  assumes "distinct (map key cols)"
  shows "lookup2 (grandTotalCells baz flat cols vm) c k
     = (if c = grandTotalCode \<and> k \<in> key ` set cols
        then Some (sumOfPresent baz vm k (map code (sumRows flat))) else lookup2 vm c k)"
  unfolding grandTotalCells_def
  using total_cells_value[OF assms, of "ensureRow vm grandTotalCode" grandTotalCode baz
          "map code (sumRows flat)" c k]
  by (simp add: ensureRow_defined)

text \<open>
  Claim C6 (amended). The grand total appends one row, \<open>__grand_total\<close>, after the rows
  it is given, and its cell in a column is the sum of the numbers held by the rows that have
  no children, are not totals and are not of type blank (\<open>null\<close>, or 0 under
  blank-as-zero, when none of them holds a number).
\<close>

theorem grand_total_sums_leaves:
  assumes "distinct (map key cols)" "col \<in> set cols"
  shows "fst (injectGrandTotal cfg cols (flat, vm)) = flat @ [grandTotalRow cfg]
       \<and> lookup2 (snd (injectGrandTotal cfg cols (flat, vm))) grandTotalCode (key col)
           = Some (sumOfPresent (blankAsZero cfg) vm (key col)
                     (map code (filter (\<lambda>r. rtype r \<noteq> TBlank \<and> children r = [] \<and> \<not> isTotal r) flat)))"
  using assms(2) by (simp add: injectGrandTotal_def lookup2_grandTotalCells[OF assms(1)] sumRows_def)

lemma ex_family_leaves:
  "sumOfPresent True (autoAggregate False exFamily [exCol ''k''] exFamilyVals) ''k''
     (map code (filter (\<lambda>r. rtype r \<noteq> TBlank \<and> children r = [] \<and> \<not> isTotal r) exFamily))
   = Some (Fin 8)
   \<and> cellOf (autoAggregate False exFamily [exCol ''k''] exFamilyVals) ''P'' ''k'' = Some (Fin 8)"
  by code_simp

text \<open>Over a parent holding 8 and its children holding 5 and 3, the grand total is 8.\<close>

theorem grand_total_sums_leaves_witness:
  "map code (fst (injectGrandTotal exCfg [exCol ''k'']
       (exFamily, autoAggregate False exFamily [exCol ''k''] exFamilyVals)))
     = [''P'', ''C1'', ''C2'', ''__grand_total'']
   \<and> lookup2 (snd (injectGrandTotal exCfg [exCol ''k'']
       (exFamily, autoAggregate False exFamily [exCol ''k''] exFamilyVals))) ''__grand_total'' ''k''
     = Some (Some (Fin 8))"
  using grand_total_sums_leaves[of "[exCol ''k'']" "exCol ''k''" exCfg exFamily
          "autoAggregate False exFamily [exCol ''k''] exFamilyVals"]
        ex_family_leaves
  by (simp add: exCol_def exCfg_def exFamily_def exNode_def grandTotalRow_def grandTotalCode_def)

text \<open>
  Without the exclusion of blank rows the claim fails: when the layout declares EU as a
  blank row, EU is a leaf and not a total, it holds 80 in 2023, the leaves that are not
  totals sum to 180, and the grand total is 100.
\<close>

theorem grand_total_skips_blank_rows:
  "case buildModel stdB exBlankCfg exRecs of
     None \<Rightarrow> False
   | Some m \<Rightarrow>
       map (\<lambda>r. (code r, rtype r, children r, isTotal r)) (mRows m)
         = [(''EU'', TBlank, [], False), (''US'', TData, [], False),
            (''__grand_total'', TCalc, [], True)]
       \<and> lookup2 (mValues m) ''EU'' ''2023||values||Sales'' = Some (Some (Fin 80))
       \<and> sumOfPresent True (mValues m) ''2023||values||Sales''
            (map code (filter (\<lambda>r. children r = [] \<and> \<not> isTotal r) (mRows m))) = Some (Fin 180)
       \<and> lookup2 (mValues m) ''__grand_total'' ''2023||values||Sales'' = Some (Some (Fin 100))"
  by code_simp


section \<open>Subtotals\<close>

lemma pushSubtotalFor_extends: "\<exists>sub. fst (pushSubtotalFor cfg cols r s) = fst s @ sub"
  by (simp add: pushSubtotalFor_def)

lemma visitWithSubtotals_extends:
  "visitWithSubtotals n cfg cols rb c st = Some st' \<Longrightarrow> \<exists>sub. fst st' = fst st @ sub"
proof (induction n arbitrary: c st st')
  case 0
  then show ?case by simp
next
  case (Suc n)
  show ?case
  proof (cases "map_of rb c")
    case None
    then show ?thesis using Suc.prems by simp
  next
    case (Some r)
    let ?f = "\<lambda>ch s. visitWithSubtotals n cfg cols rb ch s"
    let ?P = "\<lambda>s::sub_state. \<exists>sub. fst s = fst st @ sub"
    obtain s1 where s1: "foldl (\<lambda>acc ch. case acc of None \<Rightarrow> None | Some s \<Rightarrow> ?f ch s)
                           (Some (fst st @ [r], snd st)) (children r) = Some s1"
      and st': "st' = pushSubtotalFor cfg cols r s1"
      using Suc.prems(1) Some by (auto split: option.splits)
    have "?P s1"
    proof (rule foldl_opt_invariant[where P = ?P and f = ?f, OF s1])
      show "?P (fst st @ [r], snd st)" by simp
    next
      fix x s s' assume "?P s" and v: "?f x s = Some s'"
      then obtain sub where sub: "fst s = fst st @ sub" by blast
      obtain sub' where "fst s' = fst s @ sub'" using Suc.IH[OF v] by blast
      then show "?P s'" using sub by simp
    qed
    then obtain sub where sub: "fst s1 = fst st @ sub" by blast
    obtain sub' where "fst st' = fst s1 @ sub'"
      unfolding st' using pushSubtotalFor_extends by blast
    then show ?thesis using sub by simp
  qed
qed

lemma visitChildrenWithSubtotals_extends:
  assumes "visitChildrenWithSubtotals n cfg cols rb cs st = Some st'"
  shows "\<exists>sub. fst st' = fst st @ sub"
proof (rule foldl_opt_invariant[where P = "\<lambda>s::sub_state. \<exists>sub. fst s = fst st @ sub"
          and f = "\<lambda>ch s. visitWithSubtotals n cfg cols rb ch s",
          OF assms[unfolded visitChildrenWithSubtotals_def]])
  show "\<exists>sub. fst st = fst st @ sub" by simp
next
  fix x s s' assume "\<exists>sub. fst s = fst st @ sub"
    and v: "visitWithSubtotals n cfg cols rb x s = Some s'"
  then obtain sub where sub: "fst s = fst st @ sub" by blast
  obtain sub' where "fst s' = fst s @ sub'" using visitWithSubtotals_extends[OF v] by blast
  then show "\<exists>sub. fst s' = fst st @ sub" using sub by simp
qed

text \<open>
  Claim C5 (amended). Visiting a row \<open>r\<close> of a well-formed row map returns, and appends to
  the flattened list \<open>r\<close>, then everything that visiting the children of \<open>r\<close> in order
  appends (its whole subtree). When \<open>r\<close> has children, is of type data (neither blank nor
  calc) and is not the group root (\<open>rowLevel\<close> is not -1), the row \<open>code||__subtotal\<close>,
  which has no children, comes next, and its cell in a column is the sum of the numbers
  that the direct children of \<open>r\<close> hold when their subtrees have been visited (\<open>null\<close>, or
  0 under blank-as-zero, when no child holds one). Otherwise nothing comes next: a blank
  row, a calc row, a row without children and the group root get no subtotal.
\<close>

theorem subtotal_after_subtree:
  assumes wf: "wfRows rb" "childrenOK rb"
    and c: "chain rb c d" "length rb \<le> Suc n + d" "map_of rb c = Some r"
    and cols: "distinct (map key cols)" "col \<in> set cols"
  shows "\<exists>sub vm1.
      visitChildrenWithSubtotals n cfg cols rb (children r) (out @ [r], vm) = Some (out @ r # sub, vm1)
    \<and> (if internalRow r \<and> rowLevel r \<noteq> Some (- 1)
       then visitWithSubtotals (Suc n) cfg cols rb c (out, vm)
              = Some (out @ r # sub @ [subtotalRow cfg r],
                      subtotalCells (blankAsZero cfg) r cols vm1)
            \<and> code (subtotalRow cfg r) = code r @ ''||__subtotal''
            \<and> children (subtotalRow cfg r) = []
            \<and> lookup2 (subtotalCells (blankAsZero cfg) r cols vm1)
                  (code r @ ''||__subtotal'') (key col)
                = Some (sumOfPresent (blankAsZero cfg) vm1 (key col) (children r))
       else visitWithSubtotals (Suc n) cfg cols rb c (out, vm) = Some (out @ r # sub, vm1))"
proof -
  have "\<exists>s'. visitChildrenWithSubtotals n cfg cols rb (children r) (out @ [r], vm) = Some s'"
    unfolding visitChildrenWithSubtotals_def
  proof (rule subtotal_children_fuel)
    fix x s assume x: "x \<in> set (children r)"
    have "chain rb x (Suc d)" using wf c(1,3) x by (rule chain_child)
    then show "\<exists>s'. visitWithSubtotals n cfg cols rb x s = Some s'"
      using visitWithSubtotals_fuel[OF wf, of x "Suc d" n cfg cols s] c(2) by simp
  qed
  then obtain s1 where s1: "visitChildrenWithSubtotals n cfg cols rb (children r) (out @ [r], vm) = Some s1"
    by blast
  obtain sub0 where "fst s1 = fst (out @ [r], vm) @ sub0"
    using visitChildrenWithSubtotals_extends[OF s1] by blast
  then have f: "s1 = (out @ r # sub0, snd s1)" by (cases s1) simp
  have s1': "visitChildrenWithSubtotals n cfg cols rb (children r) (out @ [r], vm)
               = Some (out @ r # sub0, snd s1)"
    using s1 f by simp
  have v: "visitWithSubtotals (Suc n) cfg cols rb c (out, vm) = Some (pushSubtotalFor cfg cols r s1)"
    using s1 c(3) by (simp add: visitChildrenWithSubtotals_def)
  show ?thesis
  proof (cases "internalRow r \<and> rowLevel r \<noteq> Some (- 1)")
    case True
    have p: "pushSubtotalFor cfg cols r s1
        = (out @ r # sub0 @ [subtotalRow cfg r], subtotalCells (blankAsZero cfg) r cols (snd s1))"
      using True by (subst f) (simp add: pushSubtotalFor_def internalRow_def)
    have l: "lookup2 (subtotalCells (blankAsZero cfg) r cols (snd s1)) (code r @ ''||__subtotal'') (key col)
        = Some (sumOfPresent (blankAsZero cfg) (snd s1) (key col) (children r))"
      using cols(2) by (simp add: lookup2_subtotalCells[OF cols(1)] subtotalCode_def)
    have t: "visitWithSubtotals (Suc n) cfg cols rb c (out, vm)
              = Some (out @ r # sub0 @ [subtotalRow cfg r],
                      subtotalCells (blankAsZero cfg) r cols (snd s1))
            \<and> code (subtotalRow cfg r) = code r @ ''||__subtotal''
            \<and> children (subtotalRow cfg r) = []
            \<and> lookup2 (subtotalCells (blankAsZero cfg) r cols (snd s1))
                  (code r @ ''||__subtotal'') (key col)
                = Some (sumOfPresent (blankAsZero cfg) (snd s1) (key col) (children r))"
      using v p l by (simp add: subtotalRow_def subtotalCode_def)
    show ?thesis
      by (intro exI[of _ sub0] exI[of _ "snd s1"] conjI, rule s1')
         (unfold if_P[OF True], rule t)
  next
    case False
    have "pushSubtotalFor cfg cols r s1 = s1"
      using False by (cases "rtype r") (auto simp: pushSubtotalFor_def internalRow_def)
    then have t: "visitWithSubtotals (Suc n) cfg cols rb c (out, vm) = Some (out @ r # sub0, snd s1)"
      using v f by simp
    show ?thesis
      by (intro exI[of _ sub0] exI[of _ "snd s1"] conjI, rule s1')
         (unfold if_not_P[OF False], rule t)
  qed
qed

lemma ex_tree_wf:
  "wfRows exTree \<and> childrenOK exTree
   \<and> map_of exTree ''P'' = Some (exNode ''P'' None TData [''C1'', ''C2''])
   \<and> isRoot exTree (exNode ''P'' None TData [''C1'', ''C2''])"
  by code_simp

lemma ex_tree_visit:
  "case visitWithSubtotals 4 exCfg [exCol ''k''] exTree ''P'' ([], exTreeVals) of
     None \<Rightarrow> False
   | Some st \<Rightarrow>
       map code (fst st) = [''P'', ''C1'', ''G'', ''C1||__subtotal'', ''C2'', ''P||__subtotal'']
       \<and> lookup2 (snd st) ''P||__subtotal'' ''k'' = Some (Some (Fin 8))
       \<and> lookup2 (snd st) ''C1||__subtotal'' ''k'' = Some (Some (Fin 7))"
  by code_simp

text \<open>
  Under P, with children C1 (holding 5, with a child G holding 7) and C2 (holding 3), the
  subtotal of P comes after C1, G, the subtotal of C1 and C2, and it is 8.
\<close>

theorem subtotal_after_subtree_witness:
  "\<exists>sub vm1.
      visitWithSubtotals 4 exCfg [exCol ''k''] exTree ''P'' ([], exTreeVals)
        = Some (exNode ''P'' None TData [''C1'', ''C2''] # sub
                  @ [subtotalRow exCfg (exNode ''P'' None TData [''C1'', ''C2''])],
                subtotalCells True (exNode ''P'' None TData [''C1'', ''C2'']) [exCol ''k''] vm1)
    \<and> map code sub = [''C1'', ''G'', ''C1||__subtotal'', ''C2'']
    \<and> lookup2 (subtotalCells True (exNode ''P'' None TData [''C1'', ''C2'']) [exCol ''k''] vm1)
         ''P||__subtotal'' ''k''
        = Some (sumOfPresent True vm1 ''k'' [''C1'', ''C2''])
    \<and> sumOfPresent True vm1 ''k'' [''C1'', ''C2''] = Some (Fin 8)"
proof -
  let ?P = "exNode ''P'' None TData [''C1'', ''C2'']"
  have w: "wfRows exTree" "childrenOK exTree" "map_of exTree ''P'' = Some ?P" "isRoot exTree ?P"
    using ex_tree_wf by simp_all
  have ch: "chain exTree ''P'' 0" using w(3,4) by (rule chain_root)
  have len: "length exTree \<le> Suc 3 + 0" by (simp add: exTree_def)
  have el: "internalRow ?P" "rowLevel ?P \<noteq> Some (- 1)"
    by (simp_all add: internalRow_def exNode_def)
  have co: "distinct (map key [exCol ''k''])" "exCol ''k'' \<in> set [exCol ''k'']" by simp_all
  obtain sub vm1 where
    v: "visitWithSubtotals (Suc 3) exCfg [exCol ''k''] exTree ''P'' ([], exTreeVals)
        = Some ([] @ ?P # sub @ [subtotalRow exCfg ?P], subtotalCells (blankAsZero exCfg) ?P [exCol ''k''] vm1)"
    and l: "lookup2 (subtotalCells (blankAsZero exCfg) ?P [exCol ''k''] vm1) (code ?P @ ''||__subtotal'') (key (exCol ''k''))
        = Some (sumOfPresent (blankAsZero exCfg) vm1 (key (exCol ''k'')) (children ?P))"
    using subtotal_after_subtree[OF w(1,2) ch len w(3) co, of exCfg "[]" exTreeVals] el
    by (simp only: simp_thms if_True) blast
  have b: "blankAsZero exCfg" by (simp add: exCfg_def)
  have v4: "visitWithSubtotals 4 exCfg [exCol ''k''] exTree ''P'' ([], exTreeVals)
        = Some (?P # sub @ [subtotalRow exCfg ?P], subtotalCells True ?P [exCol ''k''] vm1)"
    using v b by (simp add: eval_nat_numeral)
  have l4: "lookup2 (subtotalCells True ?P [exCol ''k''] vm1) ''P||__subtotal'' ''k''
        = Some (sumOfPresent True vm1 ''k'' [''C1'', ''C2''])"
    using l b by (simp add: exNode_def exCol_def)
  have e: "map code (?P # sub @ [subtotalRow exCfg ?P])
             = [''P'', ''C1'', ''G'', ''C1||__subtotal'', ''C2'', ''P||__subtotal'']"
     and e2: "lookup2 (subtotalCells True ?P [exCol ''k''] vm1) ''P||__subtotal'' ''k'' = Some (Some (Fin 8))"
    using ex_tree_visit unfolding v4 by simp_all
  have m1: "map code sub = [''C1'', ''G'', ''C1||__subtotal'', ''C2'']" using e by simp
  have s8: "sumOfPresent True vm1 ''k'' [''C1'', ''C2''] = Some (Fin 8)" using e2 l4 by simp
  show ?thesis by (intro exI[of _ sub] exI[of _ vm1] conjI) (rule v4 m1 l4 s8)+
qed


text \<open>
  Without the exclusion of blank and calc rows the claim fails: with subtotals on and a
  layout that declares REV as a blank row with the children US and EU, REV has two
  children and is not the group root, and no row \<open>REV||__subtotal\<close> follows its subtree:
  the rows are REV, US, EU. (With REV of type data the subtotal row is there.)
\<close>

theorem blank_parent_gets_no_subtotal:
  "(case buildModel stdB (exParentCfg TBlank) exRecs of
      None \<Rightarrow> False
    | Some m \<Rightarrow>
        map (\<lambda>r. (code r, rtype r, children r, rowLevel r)) (mRows m)
          = [(''REV'', TBlank, [''US'', ''EU''], None), (''US'', TData, [], Some 0),
             (''EU'', TData, [], Some 0)]
        \<and> ''REV||__subtotal'' \<notin> set (map code (mRows m)))
   \<and> (case buildModel stdB (exParentCfg TData) exRecs of
      None \<Rightarrow> False
    | Some m \<Rightarrow> map code (mRows m) = [''REV'', ''US'', ''EU'', ''REV||__subtotal''])"
  by code_simp


section \<open>The column that \<open>VALUE\<close> reads\<close>

lemma ensureColumn_key:
  "columnsByKey st (columnKey b m cl) = None \<Longrightarrow> key (fst (ensureColumn b m cl st)) = columnKey b m cl"
  by (simp add: ensureColumn_def columnKey_def Let_def)

lemma asRowCode_str: "asRowCode B (VStr s) = trim s"
  by (simp add: asRowCode_def)

lemma toUpperCase_VALUE: "toUpperCase ''VALUE'' = ''VALUE''"
  by code_simp

text \<open>
  Claim C7. \<open>VALUE(code, measure, period)\<close> with a measure and a period reads the row
  \<open>code\<close> at the key \<open>period||measure\<close>, which is not the key \<open>period||values||measure\<close>
  that \<open>ensureColumn\<close> gives the column of that measure under that period; \<open>VALUE(code)\<close>
  reads the current column.
\<close>

theorem value_override_key:
  assumes "trim m \<noteq> []" "trim p \<noteq> []"
  shows "evalAst E ck (ACall ''VALUE'' [AStr c, AStr m, AStr p])
           = cellVal (getCell E (trim c) (trim p @ ''||'' @ trim m))
       \<and> columnKey ''values'' (trim m) [trim p] = trim p @ ''||values||'' @ trim m
       \<and> trim p @ ''||'' @ trim m \<noteq> columnKey ''values'' (trim m) [trim p]
       \<and> evalAst E ck (ACall ''VALUE'' [AStr c]) = cellVal (getCell E (trim c) ck)"
proof -
  have "evalAst E ck (ACall ''VALUE'' [AStr c, AStr m, AStr p])
           = evalCall E ck ''VALUE'' [VStr c, VStr m, VStr p]"
    by (simp add: toUpperCase_VALUE)
  also have "\<dots> = cellVal (getCell E (trim c) (trim p @ ''||'' @ trim m))"
    using assms by (simp add: evalCall_def Let_def asRowCode_str argAt_def)
  finally have a: "evalAst E ck (ACall ''VALUE'' [AStr c, AStr m, AStr p])
           = cellVal (getCell E (trim c) (trim p @ ''||'' @ trim m))" .
  have b: "columnKey ''values'' (trim m) [trim p] = trim p @ ''||values||'' @ trim m"
    by (simp add: columnKey_def)
  have "length (trim p @ ''||'' @ trim m) \<noteq> length (trim p @ ''||values||'' @ trim m)" by simp
  then have c: "trim p @ ''||'' @ trim m \<noteq> columnKey ''values'' (trim m) [trim p]"
    unfolding b by metis
  have d: "evalAst E ck (ACall ''VALUE'' [AStr c]) = cellVal (getCell E (trim c) ck)"
    by (simp add: toUpperCase_VALUE evalCall_def Let_def asRowCode_str argAt_def)
  show ?thesis using a b c d by blast
qed

lemma ex_trims: "trim ''US'' = ''US'' \<and> trim ''Sales'' = ''Sales'' \<and> trim ''2023'' = ''2023''"
  by code_simp

lemma ex_env_cells:
  "getCell exEnv ''US'' ''2023||Sales'' = None
   \<and> getCell exEnv ''US'' ''2023||values||Sales'' = Some (Fin 100)"
  by code_simp

text \<open>With 100 for US in the column of Sales under 2023, \<open>VALUE("US", "Sales", "2023")\<close>
  is \<open>null\<close>.\<close>

theorem value_override_key_witness:
  "evalAst exEnv ''2024||values||Sales'' (ACall ''VALUE'' [AStr ''US'', AStr ''Sales'', AStr ''2023''])
     = VNull
   \<and> columnKey ''values'' ''Sales'' [''2023''] = ''2023||values||Sales''
   \<and> getCell exEnv ''US'' (columnKey ''values'' ''Sales'' [''2023'']) = Some (Fin 100)"
  using value_override_key[of "''Sales''" "''2023''" exEnv "''2024||values||Sales''" "''US''"]
        ex_trims ex_env_cells
  by (simp add: cellVal_def)

text \<open>
  In the rebuild of the end-to-end case with the calc row K = \<open>VALUE("US", "Sales", "2023")\<close>,
  the column of Sales under 2023 is built, US holds 100 in it, and K is \<open>null\<close> in
  every column.
\<close>

theorem value_override_reads_blank:
  "case buildModel stdB (exValueCfg ''VALUE(\"US\", \"Sales\", \"2023\")'') exRecs of
     None \<Rightarrow> False
   | Some m \<Rightarrow>
       map code (mRows m) = [''K'', ''US'', ''EU'']
       \<and> map (\<lambda>c. (cmeasure c, columnLevels c, key c)) (mColumns m)
           = [(Some ''Sales'', [''2023''], ''2023||values||Sales''),
              (Some ''Sales'', [''2024''], ''2024||values||Sales'')]
       \<and> lookup2 (mValues m) ''US'' ''2023||values||Sales'' = Some (Some (Fin 100))
       \<and> lookup2 (mValues m) ''K'' ''2023||values||Sales'' = Some None
       \<and> lookup2 (mValues m) ''K'' ''2024||values||Sales'' = Some None"
  by code_simp


section \<open>Declared rows and discovered rows\<close>

subsection \<open>The codes of the data are trimmed\<close>






















subsection \<open>The merge of the discovered rows\<close>














section \<open>Formulas are evaluated before parents are aggregated\<close>

subsection \<open>What a formula pass writes\<close>
















subsection \<open>What the totals write\<close>















end
